theory Spec2Isabelle
  imports Main "HOL-Library.Sublist"
begin

section \<open>The active object of Thread.hpp\<close>

text \<open>
  The development embeds class \<open>Thread\<close> of \<open>include/Threads/Thread.hpp\<close>
  (lines 30 to 362): its members, its lifecycle operations, the five send operations, the
  run loop and the drain of left-over messages.

  Conventions of the embedding:
  \<^item> A time point of \<open>std::chrono::steady_clock\<close> is its count of nanoseconds, a
    \<open>std::chrono::milliseconds\<close> its count of milliseconds; both counts are 64-bit
    signed integers. The clock's count is taken to stay within 64 bits; the arithmetic of
    \<open>now + timeout\<close> wraps around as two's-complement arithmetic does (\<open>int64\<close>).
  \<^item> A callable is opaque: invoking it is observed as an entry of the log \<open>executed\<close>
    and yields the value \<open>result\<close> (\<open>Void\<close> for a callable returning \<open>void\<close>).
    A callable does not throw.
  \<^item> Every message object made by \<open>std::make_unique\<close> carries the serial number of
    its allocation (\<open>ident\<close>); every \<open>std::promise\<close> the serial number of its shared
    state.
  \<^item> An operation takes the state and returns its outcome with the state it leaves:
    \<open>Inl e\<close> is the \<open>std::runtime_error\<close> thrown, told apart by its message.
  \<^item> What is done while \<open>messageMutex\<close> is held is atomic, and nothing else is. A
    send operation tests \<open>isAcceptingMessages\<close> before it takes the lock, so its test
    and its locked part are apart: the locked part is an operation and an event of its
    own, which may come any time after a test that succeeded. The worker thread is a
    program counter (\<open>worker\<close>) that moves between the points where \<open>runLoop\<close>
    holds no lock; \<open>workerStep\<close> runs it to the next such point. A wait on the
    condition variable may end at any time (a notification, the timeout, or a spurious
    wake-up), so \<open>notify_one\<close> changes no state; a move of the worker out of a wait is
    such a wake-up.
  \<^item> A schedule decides when the worker moves. What is proved about progress is therefore
    stated in moves of the worker: after so many of them, whatever else happens in
    between, the worker has got so far.
\<close>

subsection \<open>Data\<close>

type_synonym time = int
type_synonym tid = nat

datatype val = Void | Value int

datatype callable = Callable (name: nat) (result: val)

text \<open>\<open>CallableMessage<TCallable>\<close> and \<open>CallableMessageWithPromise<TReturn, TCallable>\<close>.\<close>

datatype message =
    CallableMessage (ident: nat) (callableObject: callable)
  | CallableMessageWithPromise (ident: nat) (callableObject: callable) (waitablePromise: nat)

text \<open>
  The three \<open>std::runtime_error\<close> messages: "Thread already started", "Thread has not
  been started" and "Can not place a blocking message if the thread is not started" (both
  \<open>NotStarted\<close>), "Thread is not excepting any messages, ..." (\<open>NotAccepting\<close>).
  \<open>Terminated\<close> is \<open>std::terminate\<close>, called when a joinable \<open>std::thread\<close> is destroyed.
\<close>

datatype error = AlreadyStarted | NotStarted | NotAccepting | Terminated

text \<open>A \<open>std::thread\<close> object: it has the identity of its thread until it is joined.\<close>

datatype std_thread = Joinable tid | Joined

fun get_id :: "std_thread \<Rightarrow> tid option" where
  "get_id (Joinable t) = Some t"
| "get_id Joined = None"

fun joinable :: "std_thread \<Rightarrow> bool" where
  "joinable (Joinable t) = True"
| "joinable Joined = False"

text \<open>
  Where a message's \<open>call()\<close> is invoked: in \<open>sendAsync\<close> (line 134), in the loop
  (line 241), in \<open>runLeftovers\<close> (line 253).
\<close>

datatype site = InPlace | InLoop | Leftover

text \<open>
  The worker's position in \<open>runLoop\<close>: not spawned; at the loop test (line 192); holding
  \<open>timeNow\<close> before the lock (line 197); in \<open>queueWait.wait\<close> (line 202); in
  \<open>queueWait.wait_until\<close> (line 227); holding \<open>next\<close> outside the lock (line 238);
  returned from \<open>runLoop\<close>.
\<close>

datatype pc =
    NoThread
  | LoopTest
  | AtLock time
  | Waiting time
  | WaitingUntil time
  | Calling message
  | Exited

text \<open>
  The members of \<open>Thread\<close> (lines 354 to 361; the queue's front is the head of the
  list, the map is the list of its entries in key order), then the environment: the
  monotonic clock, the worker, the log of invocations, the shared states of the promises
  that were set, and the two allocation counters.
\<close>

record state =
  missCounter :: nat
  isRunning :: bool
  isAcceptingMessages :: bool
  messageQueue :: "message list"
  delayedQueue :: "(time \<times> message) list"
  thread :: "std_thread option"
  clock :: time
  worker :: pc
  executed :: "(site \<times> message \<times> time) list"
  promises :: "(nat \<times> val) list"
  nextMessage :: nat
  nextPromise :: nat

text \<open>A freshly constructed \<open>Thread\<close>, at clock reading \<open>t0\<close>.\<close>

definition init :: "time \<Rightarrow> state" where
  "init t0 = \<lparr> missCounter = 0, isRunning = False, isAcceptingMessages = True,
     messageQueue = [], delayedQueue = [], thread = None, clock = t0, worker = NoThread,
     executed = [], promises = [], nextMessage = 0, nextPromise = 0 \<rparr>"

subsection \<open>Messages and the delayed map\<close>

text \<open>
  \<open>Message::call\<close>: the callable is invoked; \<open>actualCall\<close> then sets the promise to
  what it returned.
\<close>

fun call :: "site \<Rightarrow> message \<Rightarrow> state \<Rightarrow> state" where
  "call st (CallableMessage i c) s =
     s\<lparr>executed := executed s @ [(st, CallableMessage i c, clock s)]\<rparr>"
| "call st (CallableMessageWithPromise i c p) s =
     s\<lparr>executed := executed s @ [(st, CallableMessageWithPromise i c p, clock s)],
       promises := (p, result c) # promises s\<rparr>"

text \<open>\<open>std::future::get\<close>: the value once the promise is set, \<open>None\<close> while it blocks.\<close>

definition future_get :: "nat \<Rightarrow> state \<Rightarrow> val option" where
  "future_get p s = map_of (promises s) p"

text \<open>
  The value of a 64-bit two's-complement integer that holds \<open>x\<close> after wrap-around, and
  \<open>steady_clock::now() + timeout\<close> (line 110): the milliseconds are converted to
  nanoseconds and added to the time point, both in 64 bits.
\<close>

definition int64 :: "int \<Rightarrow> int" where
  "int64 x = (x + 2 ^ 63) mod 2 ^ 64 - 2 ^ 63"

definition deadline :: "time \<Rightarrow> int \<Rightarrow> time" where
  "deadline now timeout = int64 (now + int64 (timeout * 1000000))"

text \<open>
  \<open>std::map::emplace\<close>: the entry is inserted in key order, unless the key is already
  present; then the map is left as it is and the new element is destroyed.
\<close>

fun emplace :: "time \<Rightarrow> message \<Rightarrow> (time \<times> message) list \<Rightarrow> (time \<times> message) list" where
  "emplace k m [] = [(k, m)]"
| "emplace k m ((k', m') # xs) =
     (if k < k' then (k, m) # (k', m') # xs
      else if k = k' then (k', m') # xs
      else (k', m') # emplace k m xs)"

text \<open>\<open>std::map::lower_bound\<close>: the first entry whose key is not less than \<open>t\<close>.\<close>

fun lower_bound :: "time \<Rightarrow> (time \<times> message) list \<Rightarrow> (time \<times> message) option" where
  "lower_bound t [] = None"
| "lower_bound t ((k, m) # xs) = (if k < t then lower_bound t xs else Some (k, m))"

text \<open>
  The \<open>for\<close> loop of lines 208 to 220, on the map, the queue and \<open>hasNew\<close>: entries
  are moved from the front of the map to the back of the queue while their key is
  before \<open>timeNow\<close>.
\<close>

fun moveDelayed ::
  "time \<Rightarrow> (time \<times> message) list \<Rightarrow> message list \<Rightarrow> bool
    \<Rightarrow> (time \<times> message) list \<times> message list \<times> bool" where
  "moveDelayed timeNow [] mq hasNew = ([], mq, hasNew)"
| "moveDelayed timeNow ((k, m) # dq) mq hasNew =
     (if k < timeNow then moveDelayed timeNow dq (mq @ [m]) True
      else ((k, m) # dq, mq, hasNew))"

subsection \<open>Identity\<close>

text \<open>
  \<open>getId\<close> (lines 258 to 269) and \<open>getIsSameThread\<close> (lines 291 to 294), evaluated on
  the thread \<open>caller\<close>: \<open>std::this_thread::get_id()\<close> is \<open>Some caller\<close>.
\<close>

definition getId :: "tid \<Rightarrow> state \<Rightarrow> tid option" where
  "getId caller s = (case thread s of Some h \<Rightarrow> get_id h | None \<Rightarrow> Some caller)"

definition getIsSameThread :: "tid \<Rightarrow> state \<Rightarrow> bool" where
  "getIsSameThread caller s = (getId caller s = Some caller)"

subsection \<open>Lifecycle\<close>

text \<open>
  \<open>start\<close> (lines 47 to 58); \<open>t\<close> is the identity of the thread it spawns. Assigning
  the new \<open>std::thread\<close> destroys the one held before: \<open>std::terminate\<close> if that one is
  still joinable (the process ends; the state is reported as it was).
\<close>

definition start :: "tid \<Rightarrow> state \<Rightarrow> (error + unit) \<times> state" where
  "start t s =
     (if \<not> isRunning s then
        (case thread s of
           Some (Joinable old) \<Rightarrow> (Inl Terminated, s)
         | _ \<Rightarrow> (Inr (), s\<lparr>isRunning := True, thread := Some (Joinable t), worker := LoopTest\<rparr>))
      else (Inl AlreadyStarted, s))"

text \<open>\<open>stop\<close> (lines 62 to 74).\<close>

definition stop :: "state \<Rightarrow> (error + unit) \<times> state" where
  "stop s =
     (case thread s of
        Some h \<Rightarrow> (Inr (), s\<lparr>isAcceptingMessages := False, isRunning := False\<rparr>)
      | None \<Rightarrow> (Inl NotStarted, s))"

text \<open>
  \<open>join\<close> (lines 77 to 83): \<open>None\<close> while the caller is blocked because the worker has
  not returned from \<open>runLoop\<close>.
\<close>

definition join :: "state \<Rightarrow> state option" where
  "join s =
     (case thread s of
        Some (Joinable t) \<Rightarrow> (if worker s = Exited then Some (s\<lparr>thread := Some Joined\<rparr>) else None)
      | _ \<Rightarrow> Some s)"

text \<open>
  A call of \<open>join\<close> as an event of a schedule: while the caller is blocked nothing
  has changed.
\<close>

definition joinStep :: "state \<Rightarrow> state" where
  "joinStep s = (case join s of Some s' \<Rightarrow> s' | None \<Rightarrow> s)"

text \<open>The destructor (lines 38 to 44): the flags are cleared, then it joins.\<close>

definition destructor :: "state \<Rightarrow> state" where
  "destructor s = joinStep (s\<lparr>isAcceptingMessages := False, isRunning := False\<rparr>)"

subsection \<open>The send operations\<close>

text \<open>
  \<open>send\<close> (lines 87 to 100): the locked part (lines 92 to 94), and the whole call
  when the locked part follows the test at once.
\<close>

definition sendLocked :: "callable \<Rightarrow> state \<Rightarrow> state" where
  "sendLocked newMessage s =
     s\<lparr>messageQueue := messageQueue s @ [CallableMessage (nextMessage s) newMessage],
       nextMessage := Suc (nextMessage s)\<rparr>"

definition send :: "callable \<Rightarrow> state \<Rightarrow> (error + unit) \<times> state" where
  "send newMessage s =
     (if isAcceptingMessages s then (Inr (), sendLocked newMessage s)
      else (Inl NotAccepting, s))"

text \<open>
  \<open>sendDelayed\<close> (lines 104 to 118): the locked part (lines 109 to 112), in which the
  clock is read, and the whole call.
\<close>

definition sendDelayedLocked :: "callable \<Rightarrow> int \<Rightarrow> state \<Rightarrow> state" where
  "sendDelayedLocked newMessage timeout s =
     s\<lparr>delayedQueue :=
         emplace (deadline (clock s) timeout) (CallableMessage (nextMessage s) newMessage)
           (delayedQueue s),
       nextMessage := Suc (nextMessage s)\<rparr>"

definition sendDelayed :: "callable \<Rightarrow> int \<Rightarrow> state \<Rightarrow> (error + unit) \<times> state" where
  "sendDelayed newMessage timeout s =
     (if isAcceptingMessages s then (Inr (), sendDelayedLocked newMessage timeout s)
      else (Inl NotAccepting, s))"

text \<open>
  \<open>sendAsync\<close> (lines 123 to 148), called on the thread \<open>caller\<close>; the future it returns
  is the serial number of the promise. After the test of line 126 it makes the promise and
  either calls the message in place (lines 133 and 134) or enqueues it (lines 138 to 140).
\<close>

definition sendAsyncCall :: "callable \<Rightarrow> state \<Rightarrow> nat \<times> state" where
  "sendAsyncCall newMessage s =
     (let p = nextPromise s;
          m = CallableMessageWithPromise (nextMessage s) newMessage p
      in (p, call InPlace m (s\<lparr>nextMessage := Suc (nextMessage s), nextPromise := Suc p\<rparr>)))"

definition sendAsyncLocked :: "callable \<Rightarrow> state \<Rightarrow> nat \<times> state" where
  "sendAsyncLocked newMessage s =
     (let p = nextPromise s;
          m = CallableMessageWithPromise (nextMessage s) newMessage p
      in (p, s\<lparr>messageQueue := messageQueue s @ [m],
               nextMessage := Suc (nextMessage s), nextPromise := Suc p\<rparr>))"

definition sendAsync :: "tid \<Rightarrow> callable \<Rightarrow> state \<Rightarrow> (error + nat) \<times> state" where
  "sendAsync caller newMessage s =
     (if isAcceptingMessages s then
        (case (if getIsSameThread caller s then sendAsyncCall newMessage s
               else sendAsyncLocked newMessage s) of
           (p, s') \<Rightarrow> (Inr p, s'))
      else (Inl NotAccepting, s))"

text \<open>
  \<open>sendSync\<close> (lines 153 to 162) up to the point where the caller blocks in
  \<open>future.get()\<close>: it returns the future; the value \<open>sendSync\<close> hands back is
  \<open>future_get\<close> of it, as soon as that is not \<open>None\<close>.
\<close>

definition sendSync :: "tid \<Rightarrow> callable \<Rightarrow> state \<Rightarrow> (error + nat) \<times> state" where
  "sendSync caller newMessage s =
     (if \<not> isRunning s then (Inl NotStarted, s) else sendAsync caller newMessage s)"

text \<open>\<open>sendWait\<close> (lines 166 to 170).\<close>

definition sendWait :: "tid \<Rightarrow> callable \<Rightarrow> state \<Rightarrow> (error + nat) \<times> state" where
  "sendWait caller newMessage s = sendSync caller newMessage s"

subsection \<open>The run loop\<close>

text \<open>\<open>runLeftovers\<close> (lines 247 to 256), on the queue it finds.\<close>

fun callAll :: "message list \<Rightarrow> state \<Rightarrow> state" where
  "callAll [] s = s"
| "callAll (m # ms) s = callAll ms (call Leftover m s)"

definition runLeftovers :: "state \<Rightarrow> state" where
  "runLeftovers s = (callAll (messageQueue s) s)\<lparr>messageQueue := []\<rparr>"

text \<open>
  Lines 232 to 237: the front message is taken; with an empty queue \<open>next\<close> stays null
  and the loop goes round.
\<close>

definition takeNext :: "state \<Rightarrow> state" where
  "takeNext s =
     (case messageQueue s of
        [] \<Rightarrow> s\<lparr>worker := LoopTest\<rparr>
      | m # ms \<Rightarrow> s\<lparr>messageQueue := ms, worker := Calling m\<rparr>)"

text \<open>
  Lines 205 to 230, with the lock held: the due entries are moved; when none was due,
  the worker waits until the key \<open>lower_bound\<close> finds.
\<close>

definition promote :: "time \<Rightarrow> state \<Rightarrow> state" where
  "promote timeNow s =
     (if delayedQueue s \<noteq> [] then
        (case moveDelayed timeNow (delayedQueue s) (messageQueue s) False of
           (dq, mq, hasNew) \<Rightarrow>
             (let s' = s\<lparr>delayedQueue := dq, messageQueue := mq\<rparr>
              in if \<not> hasNew then
                   (case lower_bound timeNow dq of
                      Some (k, m) \<Rightarrow> s'\<lparr>worker := WaitingUntil k\<rparr>
                    | None \<Rightarrow> takeNext s')
                 else takeNext s'))
      else takeNext s)"

text \<open>One move of the worker thread through \<open>runLoop\<close> (lines 190 to 245).\<close>

definition workerStep :: "state \<Rightarrow> state" where
  "workerStep s =
     (case worker s of
        NoThread \<Rightarrow> s
      | LoopTest \<Rightarrow>
          (if isRunning s then s\<lparr>worker := AtLock (clock s)\<rparr>
           else (runLeftovers s)\<lparr>worker := Exited\<rparr>)
      | AtLock timeNow \<Rightarrow>
          (if messageQueue s = [] \<and> delayedQueue s = [] then s\<lparr>worker := Waiting timeNow\<rparr>
           else promote timeNow s)
      | Waiting timeNow \<Rightarrow> promote timeNow s
      | WaitingUntil k \<Rightarrow> takeNext s
      | Calling m \<Rightarrow> (call InLoop m (s\<lparr>missCounter := 0\<rparr>))\<lparr>worker := LoopTest\<rparr>
      | Exited \<Rightarrow> s)"

subsection \<open>Schedules\<close>

text \<open>
  What can happen to a unit, one event at a time: the clock advances (by nanoseconds),
  the worker moves, some thread calls an operation (for a send operation: its test and
  its locked part in one go), or a send operation whose test has succeeded earlier
  comes to its locked part. \<open>run\<close> applies a schedule from left to right.
\<close>

datatype event =
    Tick nat
  | Worker
  | Start tid
  | Stop
  | Join
  | Destroy
  | Send callable
  | SendDelayed callable int
  | SendAsync tid callable
  | SendSync tid callable
  | SendWait tid callable
  | SendLocked callable
  | SendDelayedLocked callable int
  | SendAsyncCall callable
  | SendAsyncLocked callable

fun step :: "event \<Rightarrow> state \<Rightarrow> state" where
  "step (Tick n) s = s\<lparr>clock := clock s + int n\<rparr>"
| "step Worker s = workerStep s"
| "step (Start t) s = snd (start t s)"
| "step Stop s = snd (stop s)"
| "step Join s = joinStep s"
| "step Destroy s = destructor s"
| "step (Send c) s = snd (send c s)"
| "step (SendDelayed c d) s = snd (sendDelayed c d s)"
| "step (SendAsync caller c) s = snd (sendAsync caller c s)"
| "step (SendSync caller c) s = snd (sendSync caller c s)"
| "step (SendWait caller c) s = snd (sendWait caller c s)"
| "step (SendLocked c) s = sendLocked c s"
| "step (SendDelayedLocked c d) s = sendDelayedLocked c d s"
| "step (SendAsyncCall c) s = snd (sendAsyncCall c s)"
| "step (SendAsyncLocked c) s = snd (sendAsyncLocked c s)"

fun run :: "event list \<Rightarrow> state \<Rightarrow> state" where
  "run [] s = s"
| "run (e # es) s = run es (step e s)"

subsection \<open>Observations\<close>

text \<open>
  The messages the worker has in hand or in the immediate queue, in the order in which
  it will take them; the messages it has called so far (in the loop or as left-overs),
  in the order of the calls; and the two in a row.
\<close>

definition pending :: "state \<Rightarrow> message list" where
  "pending s = (case worker s of Calling m \<Rightarrow> m # messageQueue s | _ \<Rightarrow> messageQueue s)"

definition fromQueue :: "state \<Rightarrow> message list" where
  "fromQueue s = map (\<lambda>(st, m, t). m) (filter (\<lambda>(st, m, t). st \<noteq> InPlace) (executed s))"

definition queueOrder :: "state \<Rightarrow> message list" where
  "queueOrder s = fromQueue s @ pending s"

text \<open>The entries the worker's next move takes out of the delayed map.\<close>

definition due :: "state \<Rightarrow> (time \<times> message) list" where
  "due s =
     (case worker s of
        AtLock timeNow \<Rightarrow> takeWhile (\<lambda>(k, m). k < timeNow) (delayedQueue s)
      | Waiting timeNow \<Rightarrow> takeWhile (\<lambda>(k, m). k < timeNow) (delayedQueue s)
      | _ \<Rightarrow> [])"

text \<open>The messages an event puts at the back of the immediate queue.\<close>

definition arrivals :: "event \<Rightarrow> state \<Rightarrow> message list" where
  "arrivals e s =
     (case e of
        Worker \<Rightarrow> map snd (due s)
      | Send c \<Rightarrow>
          if isAcceptingMessages s then [CallableMessage (nextMessage s) c] else []
      | SendAsync caller c \<Rightarrow>
          if isAcceptingMessages s \<and> \<not> getIsSameThread caller s
          then [CallableMessageWithPromise (nextMessage s) c (nextPromise s)] else []
      | SendSync caller c \<Rightarrow>
          if isRunning s \<and> isAcceptingMessages s \<and> \<not> getIsSameThread caller s
          then [CallableMessageWithPromise (nextMessage s) c (nextPromise s)] else []
      | SendWait caller c \<Rightarrow>
          if isRunning s \<and> isAcceptingMessages s \<and> \<not> getIsSameThread caller s
          then [CallableMessageWithPromise (nextMessage s) c (nextPromise s)] else []
      | SendLocked c \<Rightarrow> [CallableMessage (nextMessage s) c]
      | SendAsyncLocked c \<Rightarrow> [CallableMessageWithPromise (nextMessage s) c (nextPromise s)]
      | _ \<Rightarrow> [])"

text \<open>
  The message objects that consecutive calls of \<open>send\<close> make of the callables
  \<open>cs\<close>, the first with the serial number \<open>n\<close>.
\<close>

fun callableMessages :: "nat \<Rightarrow> callable list \<Rightarrow> message list" where
  "callableMessages n [] = []"
| "callableMessages n (c # cs) = CallableMessage n c # callableMessages (Suc n) cs"

text \<open>
  How the \<open>std::thread\<close> held, the flags and the worker go together in every state a
  unit can reach.
\<close>

definition tied :: "state \<Rightarrow> bool" where
  "tied s =
     ((case thread s of
         None \<Rightarrow> worker s = NoThread
       | Some Joined \<Rightarrow> worker s = Exited
       | Some (Joinable t) \<Rightarrow> worker s \<noteq> NoThread)
      \<and> (isRunning s \<longrightarrow> worker s \<noteq> NoThread \<and> worker s \<noteq> Exited)
      \<and> (\<not> isRunning s \<and> worker s \<noteq> NoThread \<longrightarrow> \<not> isAcceptingMessages s))"

text \<open>
  Every message object there is: those that were called (anywhere), those in hand or in
  the immediate queue, those in the delayed map.
\<close>

definition called :: "state \<Rightarrow> message list" where
  "called s = map (\<lambda>(st, m, t). m) (executed s)"

definition allMessages :: "state \<Rightarrow> message list" where
  "allMessages s = called s @ pending s @ map snd (delayedQueue s)"

text \<open>
  What holds of the message objects in every state a unit can reach: their serial
  numbers are below the allocation counter and differ from each other, the delayed map
  is in strict key order, and a reading of the clock the worker holds is not ahead of
  the clock.
\<close>

definition wellFormed :: "state \<Rightarrow> bool" where
  "wellFormed s =
     ((\<forall>m \<in> set (allMessages s). ident m < nextMessage s)
      \<and> distinct (map ident (allMessages s))
      \<and> sorted_wrt (<) (map fst (delayedQueue s))
      \<and> (\<forall>timeNow. worker s = AtLock timeNow \<or> worker s = Waiting timeNow
            \<longrightarrow> timeNow \<le> clock s))"

text \<open>
  For the message object with serial number \<open>i\<close> and the time \<open>k\<close>: wherever the
  object is, in the delayed map it is filed under \<open>k\<close>, and it has left the map or
  has been called only after \<open>k\<close>.
\<close>

definition notBefore :: "nat \<Rightarrow> time \<Rightarrow> state \<Rightarrow> bool" where
  "notBefore i k s =
     (i < nextMessage s
      \<and> (\<forall>(k', m) \<in> set (delayedQueue s). ident m = i \<longrightarrow> k' = k)
      \<and> (\<forall>m \<in> set (pending s). ident m = i \<longrightarrow> k < clock s)
      \<and> (\<forall>(st, m, t) \<in> set (executed s). ident m = i \<longrightarrow> k < t))"

text \<open>
  For two entries \<open>a\<close> and \<open>b\<close> of the delayed map: either the message of \<open>b\<close> has
  reached the queue order, and then the message of \<open>a\<close> stands before it there; or
  \<open>b\<close> is still in the map, and \<open>a\<close> is in the map or in the queue order.
\<close>

definition earlierFirst :: "time \<times> message \<Rightarrow> time \<times> message \<Rightarrow> state \<Rightarrow> bool" where
  "earlierFirst a b s =
     (if snd b \<in> set (queueOrder s)
      then \<exists>xs ys zs. queueOrder s = xs @ snd a # ys @ snd b # zs
      else b \<in> set (delayedQueue s)
           \<and> (a \<in> set (delayedQueue s) \<or> snd a \<in> set (queueOrder s)))"













section \<open>Basic facts\<close>

subsection \<open>What each operation leaves unchanged\<close>

lemma call_frame [simp]:
  "missCounter (call st m s) = missCounter s"
  "isRunning (call st m s) = isRunning s"
  "isAcceptingMessages (call st m s) = isAcceptingMessages s"
  "messageQueue (call st m s) = messageQueue s"
  "delayedQueue (call st m s) = delayedQueue s"
  "thread (call st m s) = thread s"
  "clock (call st m s) = clock s"
  "worker (call st m s) = worker s"
  "nextMessage (call st m s) = nextMessage s"
  "nextPromise (call st m s) = nextPromise s"
  "executed (call st m s) = executed s @ [(st, m, clock s)]"
  by (cases m; simp)+

lemma callAll_frame [simp]:
  "missCounter (callAll ms s) = missCounter s"
  "isRunning (callAll ms s) = isRunning s"
  "isAcceptingMessages (callAll ms s) = isAcceptingMessages s"
  "messageQueue (callAll ms s) = messageQueue s"
  "delayedQueue (callAll ms s) = delayedQueue s"
  "thread (callAll ms s) = thread s"
  "clock (callAll ms s) = clock s"
  "worker (callAll ms s) = worker s"
  "nextMessage (callAll ms s) = nextMessage s"
  "nextPromise (callAll ms s) = nextPromise s"
  "executed (callAll ms s) = executed s @ map (\<lambda>m. (Leftover, m, clock s)) ms"
  by (induction ms arbitrary: s; simp)+

lemma moveDelayed_eq:
  "moveDelayed tn dq mq h =
     (dropWhile (\<lambda>(k, m). k < tn) dq,
      mq @ map snd (takeWhile (\<lambda>(k, m). k < tn) dq),
      h \<or> takeWhile (\<lambda>(k, m). k < tn) dq \<noteq> [])"
  by (induction tn dq mq h rule: moveDelayed.induct) auto

lemma takeNext_frame [simp]:
  "missCounter (takeNext s) = missCounter s"
  "isRunning (takeNext s) = isRunning s"
  "isAcceptingMessages (takeNext s) = isAcceptingMessages s"
  "delayedQueue (takeNext s) = delayedQueue s"
  "thread (takeNext s) = thread s"
  "clock (takeNext s) = clock s"
  "nextMessage (takeNext s) = nextMessage s"
  "nextPromise (takeNext s) = nextPromise s"
  "executed (takeNext s) = executed s"
  "promises (takeNext s) = promises s"
  by (simp_all add: takeNext_def split: list.splits)

lemma promote_frame [simp]:
  "missCounter (promote tn s) = missCounter s"
  "isRunning (promote tn s) = isRunning s"
  "isAcceptingMessages (promote tn s) = isAcceptingMessages s"
  "thread (promote tn s) = thread s"
  "clock (promote tn s) = clock s"
  "nextMessage (promote tn s) = nextMessage s"
  "nextPromise (promote tn s) = nextPromise s"
  "executed (promote tn s) = executed s"
  "promises (promote tn s) = promises s"
  by (simp_all add: promote_def moveDelayed_eq Let_def split: option.splits prod.splits)

lemma runLeftovers_frame [simp]:
  "isRunning (runLeftovers s) = isRunning s"
  "isAcceptingMessages (runLeftovers s) = isAcceptingMessages s"
  "messageQueue (runLeftovers s) = []"
  "delayedQueue (runLeftovers s) = delayedQueue s"
  "thread (runLeftovers s) = thread s"
  "clock (runLeftovers s) = clock s"
  "worker (runLeftovers s) = worker s"
  "nextMessage (runLeftovers s) = nextMessage s"
  "nextPromise (runLeftovers s) = nextPromise s"
  "executed (runLeftovers s) = executed s @ map (\<lambda>m. (Leftover, m, clock s)) (messageQueue s)"
  by (simp_all add: runLeftovers_def)

lemma workerStep_frame [simp]:
  "isRunning (workerStep s) = isRunning s"
  "isAcceptingMessages (workerStep s) = isAcceptingMessages s"
  "thread (workerStep s) = thread s"
  "clock (workerStep s) = clock s"
  "nextMessage (workerStep s) = nextMessage s"
  "nextPromise (workerStep s) = nextPromise s"
  by (simp_all add: workerStep_def split: pc.splits)

lemma run_append: "run (es @ es') s = run es' (run es s)"
  by (induction es arbitrary: s) simp_all

lemma run_snoc: "run (es @ [e]) s = step e (run es s)"
  by (simp add: run_append)


lemma sendLocked_frame [simp]:
  "isAcceptingMessages (sendLocked c s) = isAcceptingMessages s"
  "isRunning (sendLocked c s) = isRunning s"
  "thread (sendLocked c s) = thread s"
  "clock (sendLocked c s) = clock s"
  "worker (sendLocked c s) = worker s"
  "delayedQueue (sendLocked c s) = delayedQueue s"
  "executed (sendLocked c s) = executed s"
  "promises (sendLocked c s) = promises s"
  "nextPromise (sendLocked c s) = nextPromise s"
  "missCounter (sendLocked c s) = missCounter s"
  "messageQueue (sendLocked c s) = messageQueue s @ [CallableMessage (nextMessage s) c]"
  "nextMessage (sendLocked c s) = Suc (nextMessage s)"
  by (simp_all add: sendLocked_def)

lemma sendDelayedLocked_frame [simp]:
  "isAcceptingMessages (sendDelayedLocked c d s) = isAcceptingMessages s"
  "isRunning (sendDelayedLocked c d s) = isRunning s"
  "thread (sendDelayedLocked c d s) = thread s"
  "clock (sendDelayedLocked c d s) = clock s"
  "worker (sendDelayedLocked c d s) = worker s"
  "messageQueue (sendDelayedLocked c d s) = messageQueue s"
  "executed (sendDelayedLocked c d s) = executed s"
  "promises (sendDelayedLocked c d s) = promises s"
  "nextPromise (sendDelayedLocked c d s) = nextPromise s"
  "missCounter (sendDelayedLocked c d s) = missCounter s"
  "delayedQueue (sendDelayedLocked c d s) =
     emplace (deadline (clock s) d) (CallableMessage (nextMessage s) c) (delayedQueue s)"
  "nextMessage (sendDelayedLocked c d s) = Suc (nextMessage s)"
  by (simp_all add: sendDelayedLocked_def)

lemma sendAsyncCall_frame [simp]:
  "fst (sendAsyncCall c s) = nextPromise s"
  "isAcceptingMessages (snd (sendAsyncCall c s)) = isAcceptingMessages s"
  "isRunning (snd (sendAsyncCall c s)) = isRunning s"
  "thread (snd (sendAsyncCall c s)) = thread s"
  "clock (snd (sendAsyncCall c s)) = clock s"
  "worker (snd (sendAsyncCall c s)) = worker s"
  "messageQueue (snd (sendAsyncCall c s)) = messageQueue s"
  "delayedQueue (snd (sendAsyncCall c s)) = delayedQueue s"
  "missCounter (snd (sendAsyncCall c s)) = missCounter s"
  "executed (snd (sendAsyncCall c s)) =
     executed s @ [(InPlace, CallableMessageWithPromise (nextMessage s) c (nextPromise s), clock s)]"
  "promises (snd (sendAsyncCall c s)) = (nextPromise s, result c) # promises s"
  "nextMessage (snd (sendAsyncCall c s)) = Suc (nextMessage s)"
  "nextPromise (snd (sendAsyncCall c s)) = Suc (nextPromise s)"
  by (simp_all add: sendAsyncCall_def Let_def)

lemma sendAsyncLocked_frame [simp]:
  "fst (sendAsyncLocked c s) = nextPromise s"
  "isAcceptingMessages (snd (sendAsyncLocked c s)) = isAcceptingMessages s"
  "isRunning (snd (sendAsyncLocked c s)) = isRunning s"
  "thread (snd (sendAsyncLocked c s)) = thread s"
  "clock (snd (sendAsyncLocked c s)) = clock s"
  "worker (snd (sendAsyncLocked c s)) = worker s"
  "delayedQueue (snd (sendAsyncLocked c s)) = delayedQueue s"
  "executed (snd (sendAsyncLocked c s)) = executed s"
  "promises (snd (sendAsyncLocked c s)) = promises s"
  "missCounter (snd (sendAsyncLocked c s)) = missCounter s"
  "messageQueue (snd (sendAsyncLocked c s)) =
     messageQueue s @ [CallableMessageWithPromise (nextMessage s) c (nextPromise s)]"
  "nextMessage (snd (sendAsyncLocked c s)) = Suc (nextMessage s)"
  "nextPromise (snd (sendAsyncLocked c s)) = Suc (nextPromise s)"
  by (simp_all add: sendAsyncLocked_def Let_def)

lemma sendAsync_eq:
  "sendAsync caller c s =
    (if isAcceptingMessages s
     then (Inr (nextPromise s),
           if getIsSameThread caller s then snd (sendAsyncCall c s)
           else snd (sendAsyncLocked c s))
     else (Inl NotAccepting, s))"
  by (simp add: sendAsync_def sendAsyncCall_def sendAsyncLocked_def Let_def)

lemma sendAsync_frame [simp]:
  "isAcceptingMessages (snd (sendAsync caller c s)) = isAcceptingMessages s"
  "isRunning (snd (sendAsync caller c s)) = isRunning s"
  "thread (snd (sendAsync caller c s)) = thread s"
  "clock (snd (sendAsync caller c s)) = clock s"
  "worker (snd (sendAsync caller c s)) = worker s"
  "delayedQueue (snd (sendAsync caller c s)) = delayedQueue s"
  "missCounter (snd (sendAsync caller c s)) = missCounter s"
  by (simp_all add: sendAsync_eq)

lemma sendSync_frame [simp]:
  "isAcceptingMessages (snd (sendSync caller c s)) = isAcceptingMessages s"
  "isRunning (snd (sendSync caller c s)) = isRunning s"
  "thread (snd (sendSync caller c s)) = thread s"
  "clock (snd (sendSync caller c s)) = clock s"
  "worker (snd (sendSync caller c s)) = worker s"
  "delayedQueue (snd (sendSync caller c s)) = delayedQueue s"
  by (simp_all add: sendSync_def)

lemma send_frame [simp]:
  "isAcceptingMessages (snd (send c s)) = isAcceptingMessages s"
  "isRunning (snd (send c s)) = isRunning s"
  "thread (snd (send c s)) = thread s"
  "clock (snd (send c s)) = clock s"
  "worker (snd (send c s)) = worker s"
  "delayedQueue (snd (send c s)) = delayedQueue s"
  "executed (snd (send c s)) = executed s"
  "promises (snd (send c s)) = promises s"
  "nextPromise (snd (send c s)) = nextPromise s"
  by (simp_all add: send_def)

lemma sendDelayed_frame [simp]:
  "isAcceptingMessages (snd (sendDelayed c d s)) = isAcceptingMessages s"
  "isRunning (snd (sendDelayed c d s)) = isRunning s"
  "thread (snd (sendDelayed c d s)) = thread s"
  "clock (snd (sendDelayed c d s)) = clock s"
  "worker (snd (sendDelayed c d s)) = worker s"
  "messageQueue (snd (sendDelayed c d s)) = messageQueue s"
  "executed (snd (sendDelayed c d s)) = executed s"
  "promises (snd (sendDelayed c d s)) = promises s"
  "nextPromise (snd (sendDelayed c d s)) = nextPromise s"
  by (simp_all add: sendDelayed_def)

lemma start_frame [simp]:
  "isAcceptingMessages (snd (start t s)) = isAcceptingMessages s"
  "clock (snd (start t s)) = clock s"
  "messageQueue (snd (start t s)) = messageQueue s"
  "delayedQueue (snd (start t s)) = delayedQueue s"
  "executed (snd (start t s)) = executed s"
  "promises (snd (start t s)) = promises s"
  "nextMessage (snd (start t s)) = nextMessage s"
  "nextPromise (snd (start t s)) = nextPromise s"
  by (simp_all add: start_def split: option.split std_thread.split)

lemma stop_frame [simp]:
  "thread (snd (stop s)) = thread s"
  "clock (snd (stop s)) = clock s"
  "worker (snd (stop s)) = worker s"
  "messageQueue (snd (stop s)) = messageQueue s"
  "delayedQueue (snd (stop s)) = delayedQueue s"
  "executed (snd (stop s)) = executed s"
  "promises (snd (stop s)) = promises s"
  "nextMessage (snd (stop s)) = nextMessage s"
  "nextPromise (snd (stop s)) = nextPromise s"
  by (simp_all add: stop_def split: option.split)

lemma joinStep_frame [simp]:
  "isAcceptingMessages (joinStep s) = isAcceptingMessages s"
  "isRunning (joinStep s) = isRunning s"
  "clock (joinStep s) = clock s"
  "worker (joinStep s) = worker s"
  "messageQueue (joinStep s) = messageQueue s"
  "delayedQueue (joinStep s) = delayedQueue s"
  "executed (joinStep s) = executed s"
  "promises (joinStep s) = promises s"
  "nextMessage (joinStep s) = nextMessage s"
  "nextPromise (joinStep s) = nextPromise s"
  by (simp_all add: joinStep_def join_def split: option.split std_thread.split)

lemma destructor_frame [simp]:
  "isAcceptingMessages (destructor s) = False"
  "isRunning (destructor s) = False"
  "clock (destructor s) = clock s"
  "worker (destructor s) = worker s"
  "messageQueue (destructor s) = messageQueue s"
  "delayedQueue (destructor s) = delayedQueue s"
  "executed (destructor s) = executed s"
  "promises (destructor s) = promises s"
  "nextMessage (destructor s) = nextMessage s"
  "nextPromise (destructor s) = nextPromise s"
  by (simp_all add: destructor_def)

lemma step_not_accepting: "\<not> isAcceptingMessages s \<Longrightarrow> \<not> isAcceptingMessages (step e s)"
  by (cases e) (simp_all add: sendWait_def stop_def split: option.split)

lemma run_not_accepting: "\<not> isAcceptingMessages s \<Longrightarrow> \<not> isAcceptingMessages (run es s)"
  by (induction es arbitrary: s) (simp_all add: step_not_accepting)

lemma step_accepting:
  "e \<noteq> Stop \<Longrightarrow> e \<noteq> Destroy \<Longrightarrow> isAcceptingMessages (step e s) = isAcceptingMessages s"
  by (cases e) (simp_all add: sendWait_def)

lemma step_running:
  "e \<noteq> Stop \<Longrightarrow> e \<noteq> Destroy \<Longrightarrow> isRunning s \<Longrightarrow> isRunning (step e s)"
  by (cases e) (simp_all add: sendWait_def start_def)

lemma step_not_running:
  assumes "\<And>t. e \<noteq> Start t" and "\<not> isRunning s"
  shows "\<not> isRunning (step e s)"
proof (cases e)
  case (Start t)
  with assms(1) show ?thesis by blast
qed (use assms(2) in \<open>simp_all add: sendWait_def stop_def split: option.split\<close>)

lemma run_not_running:
  "\<forall>t. Start t \<notin> set es \<Longrightarrow> \<not> isRunning s \<Longrightarrow> \<not> isRunning (run es s)"
proof (induction es arbitrary: s)
  case Nil
  then show ?case by simp
next
  case (Cons e es)
  have "\<not> isRunning (step e s)"
    using Cons.prems by (intro step_not_running) auto
  with Cons show ?case by simp
qed

lemma step_no_thread:
  assumes "\<And>t. e \<noteq> Start t" and "thread s = None"
  shows "thread (step e s) = None"
proof (cases e)
  case (Start t)
  with assms(1) show ?thesis by blast
qed (use assms(2) in \<open>simp_all add: sendWait_def joinStep_def join_def destructor_def\<close>)

lemma run_no_thread:
  "\<forall>t. Start t \<notin> set es \<Longrightarrow> thread s = None \<Longrightarrow> thread (run es s) = None"
proof (induction es arbitrary: s)
  case Nil
  then show ?case by simp
next
  case (Cons e es)
  have "thread (step e s) = None"
    using Cons.prems by (intro step_no_thread) auto
  with Cons show ?case by simp
qed

lemma run_accepting:
  "Stop \<notin> set es \<Longrightarrow> Destroy \<notin> set es \<Longrightarrow> isAcceptingMessages (run es s) = isAcceptingMessages s"
proof (induction es arbitrary: s)
  case Nil
  then show ?case by simp
next
  case (Cons e es)
  from Cons.prems have "e \<noteq> Stop" and "e \<noteq> Destroy" by auto
  then have "isAcceptingMessages (step e s) = isAcceptingMessages s"
    by (rule step_accepting)
  moreover have "isAcceptingMessages (run es (step e s)) = isAcceptingMessages (step e s)"
    using Cons.prems by (intro Cons.IH) auto
  ultimately show ?case by simp
qed

lemma run_running:
  "Stop \<notin> set es \<Longrightarrow> Destroy \<notin> set es \<Longrightarrow> isRunning s \<Longrightarrow> isRunning (run es s)"
proof (induction es arbitrary: s)
  case Nil
  then show ?case by simp
next
  case (Cons e es)
  from Cons.prems have "e \<noteq> Stop" and "e \<noteq> Destroy" by auto
  then have "isRunning (step e s)"
    using Cons.prems(3) by (rule step_running)
  then have "isRunning (run es (step e s))"
    using Cons.prems by (intro Cons.IH) auto
  then show ?case by simp
qed


subsection \<open>The promotion of delayed messages\<close>

lemma lower_bound_none_ready:
  "dq \<noteq> [] \<Longrightarrow> takeWhile (\<lambda>(k, m). k < tn) dq = [] \<Longrightarrow> lower_bound tn dq = Some (hd dq)"
  by (cases dq) (auto split: if_splits)

lemma promote_eq:
  "promote tn s =
     (if delayedQueue s \<noteq> [] \<and> takeWhile (\<lambda>(k, m). k < tn) (delayedQueue s) = []
      then s\<lparr>worker := WaitingUntil (fst (hd (delayedQueue s)))\<rparr>
      else takeNext (s\<lparr>delayedQueue := dropWhile (\<lambda>(k, m). k < tn) (delayedQueue s),
                       messageQueue := messageQueue s
                          @ map snd (takeWhile (\<lambda>(k, m). k < tn) (delayedQueue s))\<rparr>))"
proof (cases "delayedQueue s = []")
  case True
  then have "s\<lparr>delayedQueue := []\<rparr> = s"
    by (cases s) simp
  note eq = this
  from True have "promote tn s = takeNext s"
    by (simp add: promote_def)
  also have "\<dots> = takeNext (s\<lparr>delayedQueue := []\<rparr>)"
    by (simp only: eq)
  finally show ?thesis
    using True by simp
next
  case False
  show ?thesis
  proof (cases "takeWhile (\<lambda>(k, m). k < tn) (delayedQueue s) = []")
    case True
    then have "dropWhile (\<lambda>(k, m). k < tn) (delayedQueue s) = delayedQueue s"
      by (metis append_Nil takeWhile_dropWhile_id)
    with True False show ?thesis
      by (simp add: promote_def moveDelayed_eq lower_bound_none_ready split: prod.split)
  next
    case ready: False
    with False show ?thesis
      by (simp add: promote_def moveDelayed_eq)
  qed
qed

lemma pending_takeNext [simp]: "pending (takeNext s) = messageQueue s"
  by (simp add: pending_def takeNext_def split: list.split)

lemma messageQueue_takeNext: "messageQueue (takeNext s) = tl (messageQueue s)"
  by (simp add: takeNext_def split: list.split)

lemma pending_promote:
  "pending (promote tn s) =
     messageQueue s @ map snd (takeWhile (\<lambda>(k, m). k < tn) (delayedQueue s))"
  by (simp add: promote_eq) (simp add: pending_def)

lemma delayedQueue_promote:
  "delayedQueue (promote tn s) = dropWhile (\<lambda>(k, m). k < tn) (delayedQueue s)"
  by (simp add: promote_eq) (metis append_Nil takeWhile_dropWhile_id)

lemma worker_takeNext: "worker (takeNext s) \<noteq> NoThread \<and> worker (takeNext s) \<noteq> Exited"
  by (simp add: takeNext_def split: list.split)

lemma worker_promote: "worker (promote tn s) \<noteq> NoThread \<and> worker (promote tn s) \<noteq> Exited"
  by (simp add: promote_eq worker_takeNext)

subsection \<open>The order of the queue\<close>

lemma fromQueue_call:
  "fromQueue (call st m s) = fromQueue s @ (if st = InPlace then [] else [m])"
  by (simp add: fromQueue_def)

lemma fromQueue_callAll:
  "fromQueue (callAll ms s) = fromQueue s @ ms"
  by (simp add: fromQueue_def comp_def)

lemma fromQueue_upd [simp]:
  "fromQueue (s\<lparr>worker := w\<rparr>) = fromQueue s"
  "fromQueue (s\<lparr>messageQueue := mq\<rparr>) = fromQueue s"
  "fromQueue (s\<lparr>delayedQueue := dq\<rparr>) = fromQueue s"
  "fromQueue (s\<lparr>missCounter := n\<rparr>) = fromQueue s"
  "fromQueue (s\<lparr>clock := t\<rparr>) = fromQueue s"
  "fromQueue (s\<lparr>isRunning := b\<rparr>) = fromQueue s"
  "fromQueue (s\<lparr>isAcceptingMessages := b\<rparr>) = fromQueue s"
  "fromQueue (s\<lparr>thread := h\<rparr>) = fromQueue s"
  "fromQueue (s\<lparr>nextMessage := i\<rparr>) = fromQueue s"
  "fromQueue (s\<lparr>nextPromise := i\<rparr>) = fromQueue s"
  by (simp_all add: fromQueue_def)

lemma pending_upd [simp]:
  "pending (s\<lparr>delayedQueue := dq\<rparr>) = pending s"
  "pending (s\<lparr>missCounter := n\<rparr>) = pending s"
  "pending (s\<lparr>clock := t\<rparr>) = pending s"
  "pending (s\<lparr>isRunning := b\<rparr>) = pending s"
  "pending (s\<lparr>isAcceptingMessages := b\<rparr>) = pending s"
  "pending (s\<lparr>thread := h\<rparr>) = pending s"
  "pending (s\<lparr>nextMessage := i\<rparr>) = pending s"
  "pending (s\<lparr>nextPromise := i\<rparr>) = pending s"
  "pending (s\<lparr>executed := l\<rparr>) = pending s"
  "pending (s\<lparr>promises := ps\<rparr>) = pending s"
  "pending (s\<lparr>messageQueue := messageQueue s @ ms\<rparr>) = pending s @ ms"
  by (simp_all add: pending_def split: pc.split)

lemma pending_call [simp]: "pending (call st m s) = pending s"
  by (cases m) simp_all

lemma fromQueue_takeNext [simp]: "fromQueue (takeNext s) = fromQueue s"
  by (simp add: fromQueue_def)

lemma fromQueue_promote [simp]: "fromQueue (promote tn s) = fromQueue s"
  by (simp add: fromQueue_def)

lemma fromQueue_runLeftovers [simp]:
  "fromQueue (runLeftovers s) = fromQueue s @ messageQueue s"
  by (simp add: runLeftovers_def fromQueue_callAll)

lemma pending_runLeftovers [simp]:
  "pending ((runLeftovers s)\<lparr>worker := Exited\<rparr>) = []"
  by (simp add: pending_def)

lemma workerStep_queueOrder:
  "queueOrder (workerStep s) = queueOrder s @ map snd (due s)"
proof (cases "worker s")
  case LoopTest
  then show ?thesis
    by (simp add: workerStep_def queueOrder_def due_def) (simp add: pending_def)
next
  case (AtLock tn)
  then show ?thesis
    by (simp add: workerStep_def queueOrder_def due_def pending_promote)
       (simp add: pending_def)
next
  case (Waiting tn)
  then show ?thesis
    by (simp add: workerStep_def queueOrder_def due_def pending_promote)
       (simp add: pending_def)
next
  case (WaitingUntil k)
  then show ?thesis
    by (simp add: workerStep_def queueOrder_def due_def) (simp add: pending_def)
next
  case (Calling m)
  then show ?thesis
    by (simp add: workerStep_def queueOrder_def due_def fromQueue_call) (simp add: pending_def)
qed (simp_all add: workerStep_def queueOrder_def due_def)

lemma workerStep_delayedQueue:
  "delayedQueue s = due s @ delayedQueue (workerStep s)"
  by (cases "worker s")
     (simp_all add: workerStep_def due_def delayedQueue_promote)

lemma workerStep_fromQueue:
  "\<exists>zs. fromQueue (workerStep s) = fromQueue s @ zs"
  by (cases "worker s")
     (simp_all add: workerStep_def fromQueue_call)

lemma tied_init: "tied (init t0)"
  by (simp add: tied_def init_def)

lemma tied_workerStep:
  assumes "tied s"
  shows "tied (workerStep s)"
proof (cases "worker s")
  case NoThread
  with assms show ?thesis by (simp add: workerStep_def)
next
  case LoopTest
  with assms show ?thesis
    by (auto simp: workerStep_def tied_def split: option.splits std_thread.splits)
next
  case (AtLock tn)
  with assms worker_promote [of tn s] show ?thesis
    by (auto simp: workerStep_def tied_def split: option.splits std_thread.splits)
next
  case (Waiting tn)
  with assms worker_promote [of tn s] show ?thesis
    by (auto simp: workerStep_def tied_def split: option.splits std_thread.splits)
next
  case (WaitingUntil k)
  with assms worker_takeNext [of s] show ?thesis
    by (auto simp: workerStep_def tied_def split: option.splits std_thread.splits)
next
  case (Calling m)
  with assms show ?thesis
    by (auto simp: workerStep_def tied_def split: option.splits std_thread.splits)
next
  case Exited
  with assms show ?thesis by (simp add: workerStep_def)
qed

lemma tied_same:
  "tied s \<Longrightarrow> thread s' = thread s \<Longrightarrow> worker s' = worker s \<Longrightarrow>
   isRunning s' = isRunning s \<Longrightarrow> isAcceptingMessages s' = isAcceptingMessages s \<Longrightarrow>
   tied s'"
  by (auto simp: tied_def split: option.splits std_thread.splits)

lemma tied_step:
  assumes "tied s"
  shows "tied (step e s)"
proof (cases e)
  case (Tick n)
  with assms show ?thesis
    by (auto simp: tied_def split: option.splits std_thread.splits)
next
  case Worker
  with assms show ?thesis by (simp add: tied_workerStep)
next
  case (Start t)
  with assms show ?thesis
    by (auto simp: tied_def start_def split: option.splits std_thread.splits)
next
  case Stop
  with assms show ?thesis
    by (auto simp: tied_def stop_def split: option.splits std_thread.splits)
next
  case Join
  with assms show ?thesis
    by (auto simp: tied_def joinStep_def join_def split: option.splits std_thread.splits)
next
  case Destroy
  with assms show ?thesis
    by (auto simp: tied_def destructor_def joinStep_def join_def
          split: option.splits std_thread.splits)
qed ((rule tied_same [OF assms]; simp add: sendWait_def)+)

lemma tied_run: "tied s \<Longrightarrow> tied (run es s)"
  by (induction es arbitrary: s) (simp_all add: tied_step)

lemma tied_reachable: "tied (run es (init t0))"
  by (simp add: tied_run tied_init)

lemma start_cases:
  "snd (start t s) = s
   \<or> (snd (start t s) = s\<lparr>isRunning := True, thread := Some (Joinable t), worker := LoopTest\<rparr>
       \<and> fst (start t s) = Inr () \<and> \<not> isRunning s
       \<and> (thread s = None \<or> thread s = Some Joined))"
  by (simp add: start_def split: option.split std_thread.split)

lemma pending_start:
  assumes "tied s"
  shows "pending (snd (start t s)) = pending s"
proof -
  consider "snd (start t s) = s"
    | "snd (start t s) = s\<lparr>isRunning := True, thread := Some (Joinable t), worker := LoopTest\<rparr>"
      and "thread s = None \<or> thread s = Some Joined"
    using start_cases [of t s] by blast
  then show ?thesis
  proof cases
    case 1
    then show ?thesis by simp
  next
    case 2
    with assms have "worker s = NoThread \<or> worker s = Exited"
      by (auto simp: tied_def)
    with 2(1) show ?thesis
      by (auto simp: pending_def)
  qed
qed

lemma pending_same:
  "worker s' = worker s \<Longrightarrow> messageQueue s' = messageQueue s \<Longrightarrow> pending s' = pending s"
  by (simp add: pending_def split: pc.split)

lemma pending_enqueue:
  "worker s' = worker s \<Longrightarrow> messageQueue s' = messageQueue s @ ms \<Longrightarrow>
   pending s' = pending s @ ms"
  by (simp add: pending_def split: pc.split)

lemma fromQueue_same: "executed s' = executed s \<Longrightarrow> fromQueue s' = fromQueue s"
  by (simp add: fromQueue_def)

lemma sendLocked_queueOrder:
  "queueOrder (sendLocked c s) = queueOrder s @ [CallableMessage (nextMessage s) c]"
  by (simp add: queueOrder_def fromQueue_same [of "sendLocked c s" s]
        pending_enqueue [of "sendLocked c s" s "[CallableMessage (nextMessage s) c]"]
        sendLocked_def)

lemma sendDelayedLocked_queueOrder: "queueOrder (sendDelayedLocked c d s) = queueOrder s"
  by (simp add: queueOrder_def fromQueue_same [of "sendDelayedLocked c d s" s]
        pending_same [of "sendDelayedLocked c d s" s])

lemma sendAsyncLocked_queueOrder:
  "queueOrder (snd (sendAsyncLocked c s)) =
     queueOrder s @ [CallableMessageWithPromise (nextMessage s) c (nextPromise s)]"
  by (simp add: queueOrder_def fromQueue_same [of "snd (sendAsyncLocked c s)" s]
        pending_enqueue [of "snd (sendAsyncLocked c s)" s
          "[CallableMessageWithPromise (nextMessage s) c (nextPromise s)]"]
        sendAsyncLocked_def Let_def)

lemma sendAsyncCall_fromQueue: "fromQueue (snd (sendAsyncCall c s)) = fromQueue s"
  by (simp add: sendAsyncCall_def Let_def fromQueue_def)

lemma sendAsyncCall_queueOrder: "queueOrder (snd (sendAsyncCall c s)) = queueOrder s"
  by (simp add: queueOrder_def sendAsyncCall_fromQueue
        pending_same [of "snd (sendAsyncCall c s)" s])

lemma sendAsync_queueOrder:
  "queueOrder (snd (sendAsync caller c s)) =
     queueOrder s @
       (if isAcceptingMessages s \<and> \<not> getIsSameThread caller s
        then [CallableMessageWithPromise (nextMessage s) c (nextPromise s)] else [])"
  by (simp add: sendAsync_eq sendAsyncLocked_queueOrder sendAsyncCall_queueOrder)

lemma step_queueOrder:
  assumes "tied s"
  shows "queueOrder (step e s) = queueOrder s @ arrivals e s"
proof (cases e)
  case (Tick n)
  then show ?thesis
    by (simp add: queueOrder_def arrivals_def
          fromQueue_same [of "s\<lparr>clock := clock s + int n\<rparr>" s]
          pending_same [of "s\<lparr>clock := clock s + int n\<rparr>" s])
next
  case Worker
  then show ?thesis by (simp add: workerStep_queueOrder arrivals_def)
next
  case (Start t)
  with assms show ?thesis
    by (simp add: queueOrder_def arrivals_def pending_start
          fromQueue_same [of "snd (start t s)" s])
next
  case Stop
  then show ?thesis
    by (simp add: queueOrder_def arrivals_def fromQueue_same [of "snd (stop s)" s]
          pending_same [of "snd (stop s)" s])
next
  case Join
  then show ?thesis
    by (simp add: queueOrder_def arrivals_def fromQueue_same [of "joinStep s" s]
          pending_same [of "joinStep s" s])
next
  case Destroy
  then show ?thesis
    by (simp add: queueOrder_def arrivals_def fromQueue_same [of "destructor s" s]
          pending_same [of "destructor s" s])
next
  case (Send c)
  then show ?thesis
    by (simp add: arrivals_def send_def sendLocked_queueOrder)
next
  case (SendDelayed c d)
  then show ?thesis
    by (simp add: arrivals_def sendDelayed_def sendDelayedLocked_queueOrder)
next
  case (SendAsync caller c)
  then show ?thesis
    by (simp add: arrivals_def sendAsync_queueOrder)
next
  case (SendSync caller c)
  then show ?thesis
    by (simp add: arrivals_def sendSync_def sendAsync_queueOrder)
next
  case (SendWait caller c)
  then show ?thesis
    by (simp add: arrivals_def sendWait_def sendSync_def sendAsync_queueOrder)
next
  case (SendLocked c)
  then show ?thesis
    by (simp add: arrivals_def sendLocked_queueOrder)
next
  case (SendDelayedLocked c d)
  then show ?thesis
    by (simp add: arrivals_def sendDelayedLocked_queueOrder)
next
  case (SendAsyncCall c)
  then show ?thesis
    by (simp add: arrivals_def sendAsyncCall_queueOrder)
next
  case (SendAsyncLocked c)
  then show ?thesis
    by (simp add: arrivals_def sendAsyncLocked_queueOrder)
qed


lemma step_fromQueue: "\<exists>zs. fromQueue (step e s) = fromQueue s @ zs"
proof (cases e)
  case Worker
  then show ?thesis by (simp add: workerStep_fromQueue)
next
  case (Start t)
  then show ?thesis by (simp add: fromQueue_same [of "snd (start t s)" s])
qed (simp_all add: fromQueue_def sendAsyncCall_fromQueue [unfolded fromQueue_def]
       send_def sendDelayed_def sendAsync_eq sendSync_def sendWait_def)


lemma run_sendLocked:
  "run (map SendLocked cs) s =
     s\<lparr>messageQueue := messageQueue s @ callableMessages (nextMessage s) cs,
       nextMessage := nextMessage s + length cs\<rparr>"
proof (induction cs arbitrary: s)
  case Nil
  then show ?case by simp
next
  case (Cons c cs)
  show ?case
    by (simp add: Cons.IH [of "sendLocked c s"])
qed


lemma callableObject_callableMessages [simp]:
  "map callableObject (callableMessages n cs) = cs"
  by (induction cs arbitrary: n) simp_all

subsection \<open>The delayed map\<close>

lemma set_emplace_upper: "set (emplace k m dq) \<subseteq> insert (k, m) (set dq)"
  by (induction k m dq rule: emplace.induct) (auto split: if_splits)

lemma set_emplace_lower: "set dq \<subseteq> set (emplace k m dq)"
  by (induction k m dq rule: emplace.induct) (auto split: if_splits)

lemma sorted_emplace:
  "sorted_wrt (<) (map fst dq) \<Longrightarrow> sorted_wrt (<) (map fst (emplace k m dq))"
proof (induction dq)
  case Nil
  then show ?case by simp
next
  case (Cons x dq)
  obtain k' m' where x: "x = (k', m')" by (cases x)
  from Cons.prems have "sorted_wrt (<) (map fst dq)" by simp
  then have IH: "sorted_wrt (<) (map fst (emplace k m dq))" by (rule Cons.IH)
  have "\<forall>y \<in> set (emplace k m dq). k' < fst y" if "k' < k"
    using that Cons.prems set_emplace_upper [of k m dq] by (auto simp: x)
  with Cons.prems IH show ?case
    by (auto simp: x)
qed

lemma emplace_present:
  "sorted_wrt (<) (map fst dq) \<Longrightarrow> k \<in> fst ` set dq \<Longrightarrow> emplace k m dq = dq"
  by (induction k m dq rule: emplace.induct) (auto split: if_splits)

lemma emplace_absent:
  "k \<notin> fst ` set dq \<Longrightarrow> \<exists>xs ys. dq = xs @ ys \<and> emplace k m dq = xs @ (k, m) # ys"
proof (induction dq)
  case Nil
  then show ?case by simp
next
  case (Cons x dq)
  obtain k' m' where x: "x = (k', m')" by (cases x)
  show ?case
  proof (cases "k < k'")
    case True
    then have "x # dq = [] @ (x # dq) \<and> emplace k m (x # dq) = [] @ (k, m) # (x # dq)"
      by (simp add: x)
    then show ?thesis by blast
  next
    case False
    from Cons.prems have "k \<noteq> k'" and "k \<notin> fst ` set dq"
      by (auto simp: x)
    then obtain xs ys where "dq = xs @ ys" and "emplace k m dq = xs @ (k, m) # ys"
      using Cons.IH by blast
    with False \<open>k \<noteq> k'\<close>
    have "x # dq = (x # xs) @ ys \<and> emplace k m (x # dq) = (x # xs) @ (k, m) # ys"
      by (simp add: x)
    then show ?thesis by blast
  qed
qed

lemma emplace_cases:
  assumes "sorted_wrt (<) (map fst dq)"
  shows "emplace k m dq = dq \<or> (\<exists>xs ys. dq = xs @ ys \<and> emplace k m dq = xs @ (k, m) # ys)"
  using assms emplace_present [of dq k m] emplace_absent [of k dq m] by blast

lemma sorted_dropWhile:
  "sorted_wrt (<) (map fst dq) \<Longrightarrow> sorted_wrt (<) (map fst (dropWhile P dq))"
  by (metis append_take_drop_id dropWhile_eq_drop map_append sorted_wrt_append)

subsection \<open>Message objects\<close>

lemma called_call [simp]: "called (call st m s) = called s @ [m]"
  by (simp add: called_def)

lemma called_callAll [simp]: "called (callAll ms s) = called s @ ms"
  by (simp add: called_def comp_def)

lemma called_takeNext [simp]: "called (takeNext s) = called s"
  by (simp add: called_def)

lemma called_promote [simp]: "called (promote tn s) = called s"
  by (simp add: called_def)

lemma called_runLeftovers [simp]: "called (runLeftovers s) = called s @ messageQueue s"
  by (simp add: runLeftovers_def called_def comp_def)

lemma called_upd [simp]:
  "called (s\<lparr>worker := w\<rparr>) = called s"
  "called (s\<lparr>missCounter := n\<rparr>) = called s"
  by (simp_all add: called_def)

lemma workerStep_called_pending:
  "called (workerStep s) @ pending (workerStep s) = called s @ pending s @ map snd (due s)"
proof (cases "worker s")
  case LoopTest
  then show ?thesis
    by (simp add: workerStep_def due_def) (simp add: pending_def called_def)
next
  case (AtLock tn)
  then show ?thesis
    by (simp add: workerStep_def due_def pending_promote) (simp add: pending_def called_def)
next
  case (Waiting tn)
  then show ?thesis
    by (simp add: workerStep_def due_def pending_promote) (simp add: pending_def)
next
  case (WaitingUntil k)
  then show ?thesis
    by (simp add: workerStep_def due_def) (simp add: pending_def)
next
  case (Calling m)
  then show ?thesis
    by (simp add: workerStep_def due_def) (simp add: pending_def)
qed (simp_all add: workerStep_def due_def)

lemma allMessages_workerStep: "allMessages (workerStep s) = allMessages s"
proof -
  have "map snd (delayedQueue s) = map snd (due s) @ map snd (delayedQueue (workerStep s))"
    using workerStep_delayedQueue [of s] by (metis map_append)
  with workerStep_called_pending [of s] show ?thesis
    by (simp add: allMessages_def)
qed

lemma worker_takeNext_holds:
  "worker (takeNext s) \<noteq> AtLock t \<and> worker (takeNext s) \<noteq> Waiting t"
  by (simp add: takeNext_def split: list.split)

lemma worker_promote_holds:
  "worker (promote tn s) \<noteq> AtLock t \<and> worker (promote tn s) \<noteq> Waiting t"
  by (simp add: promote_eq worker_takeNext_holds)

lemma timeNow_workerStep:
  assumes "\<forall>tn. worker s = AtLock tn \<or> worker s = Waiting tn \<longrightarrow> tn \<le> clock s"
  shows "\<forall>tn. worker (workerStep s) = AtLock tn \<or> worker (workerStep s) = Waiting tn
           \<longrightarrow> tn \<le> clock (workerStep s)"
proof (cases "worker s")
  case (AtLock tn)
  with assms worker_promote_holds [of tn s] show ?thesis
    by (auto simp: workerStep_def)
next
  case (Waiting tn)
  with assms worker_promote_holds [of tn s] show ?thesis
    by (auto simp: workerStep_def)
next
  case (WaitingUntil k)
  with worker_takeNext_holds [of s] show ?thesis
    by (auto simp: workerStep_def)
qed (use assms in \<open>simp_all add: workerStep_def\<close>)

lemma wellFormed_workerStep:
  assumes "wellFormed s"
  shows "wellFormed (workerStep s)"
proof -
  from assms have "sorted_wrt (<) (map fst (delayedQueue s))"
    by (simp add: wellFormed_def)
  then have "sorted_wrt (<) (map fst (delayedQueue (workerStep s)))"
    using workerStep_delayedQueue [of s] by (metis map_append sorted_wrt_append)
  moreover from assms
  have "\<forall>tn. worker (workerStep s) = AtLock tn \<or> worker (workerStep s) = Waiting tn
           \<longrightarrow> tn \<le> clock (workerStep s)"
    by (intro timeNow_workerStep) (simp add: wellFormed_def)
  ultimately show ?thesis
    using assms unfolding wellFormed_def allMessages_workerStep by simp
qed

lemma called_same: "executed s' = executed s \<Longrightarrow> called s' = called s"
  by (simp add: called_def)

lemma allMessages_sendLocked:
  "allMessages (sendLocked c s) =
     (called s @ pending s) @ CallableMessage (nextMessage s) c # map snd (delayedQueue s)"
  by (simp add: allMessages_def called_same [of "sendLocked c s" s]
        pending_enqueue [of "sendLocked c s" s "[CallableMessage (nextMessage s) c]"])

lemma allMessages_sendDelayedLocked:
  assumes "sorted_wrt (<) (map fst (delayedQueue s))"
  shows "allMessages (sendDelayedLocked c d s) = allMessages s
       \<or> (\<exists>xs ys. allMessages s = xs @ ys
             \<and> allMessages (sendDelayedLocked c d s) = xs @ CallableMessage (nextMessage s) c # ys)"
proof -
  let ?m = "CallableMessage (nextMessage s) c"
  let ?k = "deadline (clock s) d"
  let ?dq' = "emplace ?k ?m (delayedQueue s)"
  have all': "allMessages (sendDelayedLocked c d s) = called s @ pending s @ map snd ?dq'"
    by (simp add: allMessages_def called_same [of "sendDelayedLocked c d s" s]
          pending_same [of "sendDelayedLocked c d s" s])
  from assms consider "?dq' = delayedQueue s"
    | xs ys where "delayedQueue s = xs @ ys" and "?dq' = xs @ (?k, ?m) # ys"
    using emplace_cases by blast
  then show ?thesis
  proof cases
    case 1
    with all' show ?thesis by (simp add: allMessages_def)
  next
    case 2
    then have "allMessages s = (called s @ pending s @ map snd xs) @ map snd ys"
      and "allMessages (sendDelayedLocked c d s) = (called s @ pending s @ map snd xs) @ ?m # map snd ys"
      using all' by (simp_all add: allMessages_def)
    then show ?thesis by blast
  qed
qed

lemma allMessages_sendAsyncLocked:
  "allMessages (snd (sendAsyncLocked c s)) =
     (called s @ pending s) @ CallableMessageWithPromise (nextMessage s) c (nextPromise s)
        # map snd (delayedQueue s)"
  by (simp add: allMessages_def called_same [of "snd (sendAsyncLocked c s)" s]
        pending_enqueue [of "snd (sendAsyncLocked c s)" s
          "[CallableMessageWithPromise (nextMessage s) c (nextPromise s)]"])

lemma allMessages_sendAsyncCall:
  "allMessages (snd (sendAsyncCall c s)) =
     called s @ CallableMessageWithPromise (nextMessage s) c (nextPromise s)
        # (pending s @ map snd (delayedQueue s))"
  by (simp add: allMessages_def called_def pending_same [of "snd (sendAsyncCall c s)" s])

lemma wellFormed_same:
  assumes "wellFormed s" and "allMessages s' = allMessages s"
    and "nextMessage s' = nextMessage s" and "delayedQueue s' = delayedQueue s"
    and "worker s' = worker s \<or> worker s' = LoopTest" and "clock s \<le> clock s'"
  shows "wellFormed s'"
proof -
  have "tn \<le> clock s'" if "worker s' = AtLock tn \<or> worker s' = Waiting tn" for tn
  proof -
    from that assms(5) have "worker s = AtLock tn \<or> worker s = Waiting tn"
      by auto
    with assms(1) have "tn \<le> clock s"
      unfolding wellFormed_def by blast
    with assms(6) show ?thesis by simp
  qed
  with assms(1-4) show ?thesis
    unfolding wellFormed_def by simp
qed

lemma wellFormed_insert:
  assumes "wellFormed s" and "allMessages s = xs @ ys" and "allMessages s' = xs @ m # ys"
    and "ident m = nextMessage s" and "nextMessage s' = Suc (nextMessage s)"
    and "sorted_wrt (<) (map fst (delayedQueue s'))"
    and "worker s' = worker s" and "clock s' = clock s"
  shows "wellFormed s'"
proof -
  from assms(1,2) have below: "\<forall>m' \<in> set xs \<union> set ys. ident m' < nextMessage s"
    and dist: "distinct (map ident xs)" "distinct (map ident ys)"
      "ident ` set xs \<inter> ident ` set ys = {}"
    by (auto simp: wellFormed_def)
  from below assms(4) have "ident m \<notin> ident ` set xs" "ident m \<notin> ident ` set ys"
    by auto
  with dist have "distinct (map ident (xs @ m # ys))"
    by auto
  moreover from below assms(4,5) have "\<forall>m' \<in> set (xs @ m # ys). ident m' < nextMessage s'"
    by (auto simp: less_Suc_eq)
  moreover from assms(1,7,8)
  have "\<forall>tn. worker s' = AtLock tn \<or> worker s' = Waiting tn \<longrightarrow> tn \<le> clock s'"
    by (simp add: wellFormed_def)
  ultimately show ?thesis
    using assms(3,6) by (simp add: wellFormed_def)
qed

lemma allMessages_frame [simp]:
  "allMessages (s\<lparr>clock := t\<rparr>) = allMessages s"
  "allMessages (snd (stop s)) = allMessages s"
  "allMessages (joinStep s) = allMessages s"
  "allMessages (destructor s) = allMessages s"
  by (simp_all add: allMessages_def called_def pending_def split: pc.split)

lemma wellFormed_init: "wellFormed (init t0)"
  by (simp add: wellFormed_def allMessages_def called_def pending_def init_def)

lemma wellFormed_sendLocked:
  assumes "wellFormed s"
  shows "wellFormed (sendLocked c s)"
proof -
  from assms have sorted: "sorted_wrt (<) (map fst (delayedQueue s))"
    by (simp add: wellFormed_def)
  show ?thesis
  proof (rule wellFormed_insert [where s = s and m = "CallableMessage (nextMessage s) c"
          and xs = "called s @ pending s" and ys = "map snd (delayedQueue s)"])
    show "allMessages s = (called s @ pending s) @ map snd (delayedQueue s)"
      by (simp add: allMessages_def)
    show "allMessages (sendLocked c s) =
        (called s @ pending s) @ CallableMessage (nextMessage s) c # map snd (delayedQueue s)"
      by (rule allMessages_sendLocked)
  qed (use assms sorted in simp_all)
qed

lemma wellFormed_sendDelayedLocked:
  assumes "wellFormed s"
  shows "wellFormed (sendDelayedLocked c d s)"
proof -
  from assms have sorted: "sorted_wrt (<) (map fst (delayedQueue s))"
    by (simp add: wellFormed_def)
  then have sorted': "sorted_wrt (<) (map fst (delayedQueue (sendDelayedLocked c d s)))"
    by (simp add: sorted_emplace)
  have next': "nextMessage (sendDelayedLocked c d s) = Suc (nextMessage s)"
    by simp
  have frame: "worker (sendDelayedLocked c d s) = worker s"
    "clock (sendDelayedLocked c d s) = clock s"
    by simp_all
  from allMessages_sendDelayedLocked [OF sorted, of c d]
  consider "allMessages (sendDelayedLocked c d s) = allMessages s"
    | xs ys where "allMessages s = xs @ ys"
      and "allMessages (sendDelayedLocked c d s) = xs @ CallableMessage (nextMessage s) c # ys"
    by blast
  then show ?thesis
  proof cases
    case 1
    with assms sorted' next' frame show ?thesis
      unfolding wellFormed_def by (auto simp: less_Suc_eq)
  next
    case 2
    with assms sorted' next' frame show ?thesis
      by - (rule wellFormed_insert [where s = s and m = "CallableMessage (nextMessage s) c"
            and xs = xs and ys = ys], simp_all)
  qed
qed

lemma wellFormed_sendAsyncLocked:
  assumes "wellFormed s"
  shows "wellFormed (snd (sendAsyncLocked c s))"
proof -
  from assms have sorted: "sorted_wrt (<) (map fst (delayedQueue s))"
    by (simp add: wellFormed_def)
  show ?thesis
  proof (rule wellFormed_insert [where s = s
          and m = "CallableMessageWithPromise (nextMessage s) c (nextPromise s)"
          and xs = "called s @ pending s" and ys = "map snd (delayedQueue s)"])
    show "allMessages s = (called s @ pending s) @ map snd (delayedQueue s)"
      by (simp add: allMessages_def)
    show "allMessages (snd (sendAsyncLocked c s)) =
        (called s @ pending s) @ CallableMessageWithPromise (nextMessage s) c (nextPromise s)
          # map snd (delayedQueue s)"
      by (rule allMessages_sendAsyncLocked)
  qed (use assms sorted in simp_all)
qed

lemma wellFormed_sendAsyncCall:
  assumes "wellFormed s"
  shows "wellFormed (snd (sendAsyncCall c s))"
proof -
  from assms have sorted: "sorted_wrt (<) (map fst (delayedQueue s))"
    by (simp add: wellFormed_def)
  show ?thesis
  proof (rule wellFormed_insert [where s = s
          and m = "CallableMessageWithPromise (nextMessage s) c (nextPromise s)"
          and xs = "called s" and ys = "pending s @ map snd (delayedQueue s)"])
    show "allMessages s = called s @ pending s @ map snd (delayedQueue s)"
      by (simp add: allMessages_def)
    show "allMessages (snd (sendAsyncCall c s)) =
        called s @ CallableMessageWithPromise (nextMessage s) c (nextPromise s)
          # pending s @ map snd (delayedQueue s)"
      by (rule allMessages_sendAsyncCall)
  qed (use assms sorted in simp_all)
qed

lemma wellFormed_send: "wellFormed s \<Longrightarrow> wellFormed (snd (send c s))"
  by (simp add: send_def wellFormed_sendLocked)

lemma wellFormed_sendDelayed: "wellFormed s \<Longrightarrow> wellFormed (snd (sendDelayed c d s))"
  by (simp add: sendDelayed_def wellFormed_sendDelayedLocked)

lemma wellFormed_sendAsync: "wellFormed s \<Longrightarrow> wellFormed (snd (sendAsync caller c s))"
  by (simp add: sendAsync_eq wellFormed_sendAsyncLocked wellFormed_sendAsyncCall)

lemma wellFormed_step:
  assumes "tied s" and "wellFormed s"
  shows "wellFormed (step e s)"
proof (cases e)
  case (Tick n)
  with assms(2) show ?thesis
    by - (rule wellFormed_same [where s = s], simp_all)
next
  case Worker
  with assms(2) show ?thesis by (simp add: wellFormed_workerStep)
next
  case (Start t)
  have "worker (snd (start t s)) = worker s \<or> worker (snd (start t s)) = LoopTest"
    using start_cases [of t s] by auto
  moreover from assms(1) have "allMessages (snd (start t s)) = allMessages s"
    by (simp add: allMessages_def pending_start called_def)
  ultimately show ?thesis
    using assms(2) Start by - (rule wellFormed_same [where s = s], simp_all)
next
  case Stop
  with assms(2) show ?thesis
    by - (rule wellFormed_same [where s = s], simp_all)
next
  case Join
  with assms(2) show ?thesis
    by - (rule wellFormed_same [where s = s], simp_all)
next
  case Destroy
  with assms(2) show ?thesis
    by - (rule wellFormed_same [where s = s], simp_all)
next
  case (Send c)
  with assms(2) show ?thesis by (simp add: wellFormed_send)
next
  case (SendDelayed c d)
  with assms(2) show ?thesis by (simp add: wellFormed_sendDelayed)
next
  case (SendAsync caller c)
  with assms(2) show ?thesis by (simp add: wellFormed_sendAsync)
next
  case (SendSync caller c)
  with assms(2) show ?thesis by (simp add: sendSync_def wellFormed_sendAsync)
next
  case (SendWait caller c)
  with assms(2) show ?thesis by (simp add: sendWait_def sendSync_def wellFormed_sendAsync)
next
  case (SendLocked c)
  with assms(2) show ?thesis by (simp add: wellFormed_sendLocked)
next
  case (SendDelayedLocked c d)
  with assms(2) show ?thesis by (simp add: wellFormed_sendDelayedLocked)
next
  case (SendAsyncCall c)
  with assms(2) show ?thesis by (simp add: wellFormed_sendAsyncCall)
next
  case (SendAsyncLocked c)
  with assms(2) show ?thesis by (simp add: wellFormed_sendAsyncLocked)
qed

lemma wellFormed_run: "tied s \<Longrightarrow> wellFormed s \<Longrightarrow> wellFormed (run es s)"
  by (induction es arbitrary: s) (simp_all add: tied_step wellFormed_step)

lemma wellFormed_reachable: "wellFormed (run es (init t0))"
  by (simp add: wellFormed_run tied_init wellFormed_init)

subsection \<open>What one event does\<close>

lemma due_subset: "set (due s) \<subseteq> set (delayedQueue s)"
  by (auto simp: due_def split: pc.splits dest: set_takeWhileD)

lemma due_before:
  "(k, m) \<in> set (due s) \<Longrightarrow> \<exists>tn. (worker s = AtLock tn \<or> worker s = Waiting tn) \<and> k < tn"
  by (auto simp: due_def split: pc.splits dest: set_takeWhileD)

lemma workerStep_executed:
  "\<exists>zs. executed (workerStep s) = executed s @ zs
     \<and> (\<forall>(st, m, t) \<in> set zs. t = clock s \<and> st \<noteq> InPlace \<and> m \<in> set (pending s))"
proof (cases "worker s")
  case LoopTest
  show ?thesis
  proof (cases "isRunning s")
    case True
    with LoopTest show ?thesis by (simp add: workerStep_def)
  next
    case False
    with LoopTest
    have "executed (workerStep s) = executed s @ map (\<lambda>m. (Leftover, m, clock s)) (messageQueue s)"
      by (simp add: workerStep_def)
    moreover from LoopTest
    have "\<forall>(st, m, t) \<in> set (map (\<lambda>m. (Leftover, m, clock s)) (messageQueue s)).
            t = clock s \<and> st \<noteq> InPlace \<and> m \<in> set (pending s)"
      by (auto simp: pending_def)
    ultimately show ?thesis by blast
  qed
next
  case (Calling m)
  then have "executed (workerStep s) = executed s @ [(InLoop, m, clock s)]"
    by (simp add: workerStep_def)
  moreover from Calling
  have "\<forall>(st, m', t) \<in> set [(InLoop, m, clock s)]. t = clock s \<and> st \<noteq> InPlace \<and> m' \<in> set (pending s)"
    by (simp add: pending_def)
  ultimately show ?thesis by blast
qed (simp_all add: workerStep_def)

lemma step_executed:
  "\<exists>zs. executed (step e s) = executed s @ zs
     \<and> (\<forall>(st, m, t) \<in> set zs.
           t = clock s \<and> (st \<noteq> InPlace \<and> m \<in> set (pending s)
                          \<or> st = InPlace \<and> ident m = nextMessage s))"
proof (cases e)
  case Worker
  obtain zs where "executed (workerStep s) = executed s @ zs"
    and "\<forall>(st, m, t) \<in> set zs. t = clock s \<and> st \<noteq> InPlace \<and> m \<in> set (pending s)"
    using workerStep_executed by blast
  with Worker show ?thesis
    by (intro exI [of _ zs]) auto
next
  case (SendAsync caller c)
  then show ?thesis
    by (simp add: sendAsync_eq)
next
  case (SendSync caller c)
  then show ?thesis
    by (simp add: sendSync_def sendAsync_eq)
next
  case (SendWait caller c)
  then show ?thesis
    by (simp add: sendWait_def sendSync_def sendAsync_eq)
qed (simp_all add: send_def sendDelayed_def)

lemma step_pending:
  assumes "tied s"
  shows "set (pending (step e s)) \<subseteq> set (pending s) \<union> set (arrivals e s)"
proof -
  from assms have "queueOrder (step e s) = queueOrder s @ arrivals e s"
    by (rule step_queueOrder)
  moreover obtain zs where "fromQueue (step e s) = fromQueue s @ zs"
    using step_fromQueue by blast
  ultimately have "zs @ pending (step e s) = pending s @ arrivals e s"
    by (simp add: queueOrder_def)
  then have "set (zs @ pending (step e s)) = set (pending s @ arrivals e s)"
    by simp
  then show ?thesis by auto
qed

lemma arrivals_fresh:
  "e \<noteq> Worker \<Longrightarrow> m \<in> set (arrivals e s) \<Longrightarrow> ident m = nextMessage s"
  by (cases e) (simp_all add: arrivals_def split: if_splits)

lemma workerStep_delayedQueue_subset:
  "set (delayedQueue (workerStep s)) \<subseteq> set (delayedQueue s)"
proof -
  have "set (delayedQueue s) = set (due s) \<union> set (delayedQueue (workerStep s))"
    by (metis set_append workerStep_delayedQueue)
  then show ?thesis by simp
qed

lemma step_delayedQueue:
  assumes "x \<in> set (delayedQueue (step e s))"
  shows "x \<in> set (delayedQueue s) \<or> ident (snd x) = nextMessage s"
proof (cases e)
  case Worker
  with assms show ?thesis
    using workerStep_delayedQueue_subset [of s] by auto
next
  case (SendDelayed c d)
  with assms
  have "x \<in> set (delayedQueue s)
      \<or> x \<in> set (emplace (deadline (clock s) d) (CallableMessage (nextMessage s) c)
                    (delayedQueue s))"
    by (simp add: sendDelayed_def split: if_splits)
  then show ?thesis
    using set_emplace_upper [of "deadline (clock s) d" "CallableMessage (nextMessage s) c"
        "delayedQueue s"]
    by auto
next
  case (SendDelayedLocked c d)
  with assms
  have "x \<in> set (emplace (deadline (clock s) d) (CallableMessage (nextMessage s) c)
                    (delayedQueue s))"
    by simp
  then show ?thesis
    using set_emplace_upper [of "deadline (clock s) d" "CallableMessage (nextMessage s) c"
        "delayedQueue s"]
    by auto
qed (use assms in \<open>simp_all add: sendWait_def\<close>)

lemma step_nextMessage: "nextMessage s \<le> nextMessage (step e s)"
  by (cases e)
     (simp_all add: send_def sendDelayed_def sendAsync_eq sendSync_def sendWait_def)

lemma step_clock: "clock s \<le> clock (step e s)"
  by (cases e) (simp_all add: sendWait_def)

subsection \<open>Not before the deadline\<close>

lemma wellFormed_timeNow:
  "wellFormed s \<Longrightarrow> worker s = AtLock tn \<or> worker s = Waiting tn \<Longrightarrow> tn \<le> clock s"
  unfolding wellFormed_def by blast

lemma notBefore_step:
  assumes "tied s" and "wellFormed s" and "notBefore i k s"
  shows "notBefore i k (step e s)"
proof -
  from assms(3) have below: "i < nextMessage s"
    and filed: "\<And>k' m. (k', m) \<in> set (delayedQueue s) \<Longrightarrow> ident m = i \<Longrightarrow> k' = k"
    and left: "\<And>m. m \<in> set (pending s) \<Longrightarrow> ident m = i \<Longrightarrow> k < clock s"
    and logged: "\<And>st m t. (st, m, t) \<in> set (executed s) \<Longrightarrow> ident m = i \<Longrightarrow> k < t"
    by (auto simp: notBefore_def)
  from assms(2) have now: "\<And>tn. worker s = AtLock tn \<or> worker s = Waiting tn \<Longrightarrow> tn \<le> clock s"
    by (rule wellFormed_timeNow)
  have 1: "i < nextMessage (step e s)"
    using below step_nextMessage [of s e] by simp
  have 2: "k' = k" if "(k', m) \<in> set (delayedQueue (step e s))" and "ident m = i" for k' m
  proof -
    from that(1) consider "(k', m) \<in> set (delayedQueue s)" | "ident m = nextMessage s"
      using step_delayedQueue [of "(k', m)" e s] by auto
    then show ?thesis
    proof cases
      case 1
      with that(2) show ?thesis by (auto intro: filed)
    next
      case 2
      with that(2) below show ?thesis by simp
    qed
  qed
  have 3: "k < clock (step e s)" if "m \<in> set (pending (step e s))" and "ident m = i" for m
  proof -
    from that(1) assms(1) consider "m \<in> set (pending s)" | "m \<in> set (arrivals e s)"
      using step_pending [of s e] by blast
    then have "k < clock s"
    proof cases
      case 1
      with that(2) show ?thesis by (auto intro: left)
    next
      case 2
      show ?thesis
      proof (cases "e = Worker")
        case True
        with 2 obtain k' where due: "(k', m) \<in> set (due s)"
          by (auto simp: arrivals_def)
        with due_subset [of s] that(2) have "k' = k"
          by (auto intro: filed)
        moreover from due obtain tn where "worker s = AtLock tn \<or> worker s = Waiting tn"
          and "k' < tn"
          using due_before by blast
        ultimately show ?thesis
          using now [of tn] by simp
      next
        case False
        with 2 have "ident m = nextMessage s"
          by (auto intro: arrivals_fresh)
        with that(2) below show ?thesis by simp
      qed
    qed
    with step_clock [of s e] show ?thesis by simp
  qed
  have 4: "k < t" if "(st, m, t) \<in> set (executed (step e s))" and "ident m = i" for st m t
  proof -
    obtain zs where eq: "executed (step e s) = executed s @ zs"
      and new: "\<forall>(st, m, t) \<in> set zs.
           t = clock s \<and> (st \<noteq> InPlace \<and> m \<in> set (pending s)
                          \<or> st = InPlace \<and> ident m = nextMessage s)"
      using step_executed by blast
    from that(1) eq consider "(st, m, t) \<in> set (executed s)" | "(st, m, t) \<in> set zs"
      by auto
    then show ?thesis
    proof cases
      case 1
      with that(2) show ?thesis by (auto intro: logged)
    next
      case 2
      with new have "t = clock s" and "m \<in> set (pending s) \<or> ident m = nextMessage s"
        by auto
      with that(2) below left [of m] show ?thesis by auto
    qed
  qed
  from 1 2 3 4 show ?thesis
    unfolding notBefore_def by blast
qed

lemma notBefore_run:
  "tied s \<Longrightarrow> wellFormed s \<Longrightarrow> notBefore i k s \<Longrightarrow> notBefore i k (run es s)"
  by (induction es arbitrary: s) (simp_all add: tied_step wellFormed_step notBefore_step)

subsection \<open>Earlier deadlines first\<close>

lemma sorted_split:
  fixes xs :: "(time \<times> message) list"
  assumes "sorted_wrt (<) (map fst xs)" and "a \<in> set xs" and "b \<in> set xs" and "fst a < fst b"
  shows "\<exists>us vs ws. xs = us @ a # vs @ b # ws"
proof -
  from assms(3) obtain us' ws where xs: "xs = us' @ b # ws"
    by (meson split_list)
  from assms(1) have after: "\<forall>y \<in> set ws. fst b < fst y"
    by (simp add: xs sorted_wrt_append)
  from assms(4) have "a \<noteq> b"
    by auto
  moreover have "a \<notin> set ws"
  proof
    assume "a \<in> set ws"
    with after have "fst b < fst a" by blast
    with assms(4) show False by simp
  qed
  ultimately have "a \<in> set us'"
    using assms(2) by (simp add: xs)
  then obtain us vs where "us' = us @ a # vs"
    by (meson split_list)
  with xs have "xs = us @ a # vs @ b # ws" by simp
  then show ?thesis by blast
qed

lemma due_takes_earlier:
  assumes "sorted_wrt (<) (map fst (delayedQueue s))"
    and "a \<in> set (delayedQueue s)" and "b \<in> set (due s)" and "fst a < fst b"
  shows "\<exists>us vs ws. due s = us @ a # vs @ b # ws"
proof -
  have dq: "delayedQueue s = due s @ delayedQueue (workerStep s)"
    by (rule workerStep_delayedQueue)
  then have "map fst (delayedQueue s) = map fst (due s) @ map fst (delayedQueue (workerStep s))"
    by (metis map_append)
  with assms(1)
  have "sorted_wrt (<) (map fst (due s) @ map fst (delayedQueue (workerStep s)))"
    by simp
  then have sorted: "sorted_wrt (<) (map fst (due s))"
    and apart: "\<forall>x \<in> set (due s). \<forall>y \<in> set (delayedQueue (workerStep s)). fst x < fst y"
    by (simp_all add: sorted_wrt_append)
  from assms(2) dq have "a \<in> set (due s) \<or> a \<in> set (delayedQueue (workerStep s))"
    by (metis Un_iff set_append)
  moreover have "a \<notin> set (delayedQueue (workerStep s))"
  proof
    assume "a \<in> set (delayedQueue (workerStep s))"
    with apart assms(3) have "fst b < fst a" by blast
    with assms(4) show False by simp
  qed
  ultimately have "a \<in> set (due s)"
    by simp
  with sorted show ?thesis
    using assms(3,4) by (rule sorted_split)
qed

lemma prefix_holds_both:
  assumes "distinct (p @ q)" and "p @ q = xs @ a # ys @ b # zs" and "b \<in> set p"
  shows "\<exists>zs'. p = xs @ a # ys @ b # zs'"
proof -
  let ?front = "xs @ a # ys"
  from assms(2) have whole: "p @ q = (?front @ [b]) @ zs"
    by simp
  have "prefix p (p @ q)"
    by simp
  moreover have "prefix (?front @ [b]) (p @ q)"
    unfolding whole by (rule prefixI) (rule refl)
  ultimately have "prefix p (p @ q)" and "prefix (?front @ [b]) (p @ q)"
    by blast+
  then consider "prefix (?front @ [b]) p" | "prefix p (?front @ [b])"
    using prefix_same_cases by blast
  then show ?thesis
  proof cases
    case 1
    then obtain zs' where "p = (?front @ [b]) @ zs'"
      by (auto simp: prefix_def)
    then have "p = xs @ a # ys @ b # zs'" by simp
    then show ?thesis by blast
  next
    case 2
    then consider "p = ?front @ [b]" | "prefix p ?front"
      by (auto simp: prefix_snoc simp del: append_assoc)
    then show ?thesis
    proof cases
      case 1
      then have "p = xs @ a # ys @ b # []" by simp
      then show ?thesis by blast
    next
      case 2
      with assms(3) have "b \<in> set ?front"
        using set_mono_prefix by blast
      moreover from assms(1) whole have "distinct (?front @ [b])"
        by (metis distinct_append)
      ultimately show ?thesis by simp
    qed
  qed
qed

lemma wellFormed_delayed_below:
  "wellFormed s \<Longrightarrow> x \<in> set (delayedQueue s) \<Longrightarrow> ident (snd x) < nextMessage s"
  by (simp add: wellFormed_def allMessages_def)

lemma wellFormed_distinct:
  assumes "wellFormed s"
  shows "distinct (map ident (called s @ pending s))"
    and "distinct (map ident (map snd (delayedQueue s)))"
    and "ident ` set (called s @ pending s) \<inter> ident ` set (map snd (delayedQueue s)) = {}"
proof -
  from assms have "distinct (map ident ((called s @ pending s) @ map snd (delayedQueue s)))"
    by (simp add: wellFormed_def allMessages_def)
  then have "distinct (map ident (called s @ pending s) @ map ident (map snd (delayedQueue s)))"
    by (simp only: map_append)
  then have "distinct (map ident (called s @ pending s))
           \<and> distinct (map ident (map snd (delayedQueue s)))
           \<and> set (map ident (called s @ pending s))
               \<inter> set (map ident (map snd (delayedQueue s))) = {}"
    by (simp only: distinct_append)
  then show "distinct (map ident (called s @ pending s))"
    and "distinct (map ident (map snd (delayedQueue s)))"
    and "ident ` set (called s @ pending s) \<inter> ident ` set (map snd (delayedQueue s)) = {}"
    by (simp_all only: set_map)
qed

lemma wellFormed_delayed_inj:
  assumes "wellFormed s" and "x \<in> set (delayedQueue s)" and "y \<in> set (delayedQueue s)"
    and "snd x = snd y"
  shows "x = y"
proof -
  from assms(1) have "distinct (map ident (map snd (delayedQueue s)))"
    by (rule wellFormed_distinct)
  then have "inj_on (ident \<circ> snd) (set (delayedQueue s))"
    by (simp add: distinct_map comp_def)
  moreover from assms(4) have "(ident \<circ> snd) x = (ident \<circ> snd) y"
    by simp
  ultimately show ?thesis
    using assms(2,3) by (rule inj_onD)
qed

lemma fromQueue_called: "set (fromQueue s) \<subseteq> set (called s)"
  by (force simp: fromQueue_def called_def)

lemma wellFormed_delayed_apart:
  assumes "wellFormed s" and "x \<in> set (delayedQueue s)"
  shows "snd x \<notin> set (queueOrder s)"
proof
  assume "snd x \<in> set (queueOrder s)"
  then have "snd x \<in> set (called s @ pending s)"
    using fromQueue_called [of s] by (auto simp: queueOrder_def)
  then have "ident (snd x) \<in> ident ` set (called s @ pending s)"
    by (rule imageI)
  moreover from assms(2) have "ident (snd x) \<in> ident ` set (map snd (delayedQueue s))"
    by simp
  ultimately show False
    using wellFormed_distinct(3) [OF assms(1)] by blast
qed

lemma wellFormed_queueOrder_distinct:
  assumes "wellFormed s"
  shows "distinct (queueOrder s)"
proof -
  from assms have "distinct (map ident (called s @ pending s))"
    by (rule wellFormed_distinct)
  then have both: "distinct (called s @ pending s)"
    by (simp only: distinct_map)
  then have "distinct (map (\<lambda>(st, m, t). m) (executed s))"
    by (simp add: called_def)
  then have "distinct (fromQueue s)"
    unfolding fromQueue_def by (rule distinct_map_filter)
  with both fromQueue_called [of s] show ?thesis
    by (auto simp: queueOrder_def)
qed

lemma step_delayedQueue_keeps:
  "e \<noteq> Worker \<Longrightarrow> set (delayedQueue s) \<subseteq> set (delayedQueue (step e s))"
proof (cases e)
  case (SendDelayed c d)
  then show ?thesis
    using set_emplace_lower [of "delayedQueue s" "deadline (clock s) d"
        "CallableMessage (nextMessage s) c"]
    by (simp add: sendDelayed_def)
next
  case (SendDelayedLocked c d)
  then show ?thesis
    using set_emplace_lower [of "delayedQueue s" "deadline (clock s) d"
        "CallableMessage (nextMessage s) c"]
    by simp
qed (simp_all add: sendWait_def)

lemma earlierFirst_step:
  assumes "tied s" and "wellFormed s" and "fst a < fst b" and "earlierFirst a b s"
  shows "earlierFirst a b (step e s)"
proof -
  from assms(1) have order: "queueOrder (step e s) = queueOrder s @ arrivals e s"
    by (rule step_queueOrder)
  show ?thesis
  proof (cases "snd b \<in> set (queueOrder s)")
    case True
    with assms(4) obtain xs ys zs where "queueOrder s = xs @ snd a # ys @ snd b # zs"
      by (auto simp: earlierFirst_def)
    with order have "queueOrder (step e s) = xs @ snd a # ys @ snd b # (zs @ arrivals e s)"
      by simp
    moreover from True order have "snd b \<in> set (queueOrder (step e s))"
      by simp
    ultimately show ?thesis
      unfolding earlierFirst_def by (simp only: if_True) blast
  next
    case False
    with assms(4) have b: "b \<in> set (delayedQueue s)"
      and a: "a \<in> set (delayedQueue s) \<or> snd a \<in> set (queueOrder s)"
      by (auto simp: earlierFirst_def)
    show ?thesis
    proof (cases "snd b \<in> set (arrivals e s)")
      case arrives: True
      have worker: "e = Worker"
      proof (rule ccontr)
        assume "e \<noteq> Worker"
        with arrives have "ident (snd b) = nextMessage s"
          by (auto intro: arrivals_fresh)
        with wellFormed_delayed_below [OF assms(2) b] show False
          by simp
      qed
      with arrives obtain x where x: "x \<in> set (due s)" and "snd x = snd b"
        by (auto simp: arrivals_def)
      with due_subset [of s] b have "x = b"
        by (auto intro: wellFormed_delayed_inj [OF assms(2)])
      with x have due: "b \<in> set (due s)"
        by simp
      have "\<exists>xs ys zs. queueOrder (step e s) = xs @ snd a # ys @ snd b # zs"
      proof (cases "a \<in> set (delayedQueue s)")
        case True
        from assms(2) have "sorted_wrt (<) (map fst (delayedQueue s))"
          by (simp add: wellFormed_def)
        then obtain us vs ws where "due s = us @ a # vs @ b # ws"
          using True due assms(3) due_takes_earlier by blast
        with order worker
        have "queueOrder (step e s)
            = (queueOrder s @ map snd us) @ snd a # map snd vs @ snd b # map snd ws"
          by (simp add: arrivals_def)
        then show ?thesis by blast
      next
        case False
        with a have "snd a \<in> set (queueOrder s)"
          by simp
        then obtain xs ys where "queueOrder s = xs @ snd a # ys"
          by (meson split_list)
        moreover from arrives obtain us ws where "arrivals e s = us @ snd b # ws"
          by (meson split_list)
        ultimately have "queueOrder (step e s) = xs @ snd a # (ys @ us) @ snd b # ws"
          using order by simp
        then show ?thesis by blast
      qed
      moreover from arrives order have "snd b \<in> set (queueOrder (step e s))"
        by simp
      ultimately show ?thesis
        unfolding earlierFirst_def by (simp only: if_True)
    next
      case stays: False
      with False order have out: "snd b \<notin> set (queueOrder (step e s))"
        by simp
      have "b \<in> set (delayedQueue (step e s))
          \<and> (a \<in> set (delayedQueue (step e s)) \<or> snd a \<in> set (queueOrder (step e s)))"
      proof (cases "e = Worker")
        case True
        have dq: "set (delayedQueue s) = set (due s) \<union> set (delayedQueue (step e s))"
          using True workerStep_delayedQueue [of s] by (metis set_append step.simps(2))
        from stays True have "b \<notin> set (due s)"
          by (auto simp: arrivals_def)
        with b dq have "b \<in> set (delayedQueue (step e s))"
          by simp
        moreover have "a \<in> set (delayedQueue (step e s)) \<or> snd a \<in> set (queueOrder (step e s))"
        proof (cases "a \<in> set (due s)")
          case True
          with \<open>e = Worker\<close> have "snd a \<in> set (arrivals e s)"
            by (simp add: arrivals_def)
          with order show ?thesis by simp
        next
          case False
          with a dq order show ?thesis by auto
        qed
        ultimately show ?thesis by simp
      next
        case False
        then have "set (delayedQueue s) \<subseteq> set (delayedQueue (step e s))"
          by (rule step_delayedQueue_keeps)
        with a b order show ?thesis by auto
      qed
      with out show ?thesis
        unfolding earlierFirst_def by (simp only: if_False)
    qed
  qed
qed

lemma earlierFirst_run:
  "tied s \<Longrightarrow> wellFormed s \<Longrightarrow> fst a < fst b \<Longrightarrow> earlierFirst a b s
     \<Longrightarrow> earlierFirst a b (run es s)"
  by (induction es arbitrary: s) (simp_all add: tied_step wellFormed_step earlierFirst_step)

lemma int64_exact: "- (2 ^ 63) \<le> x \<Longrightarrow> x < 2 ^ 63 \<Longrightarrow> int64 x = x"
  by (simp add: int64_def)

lemma deadline_exact:
  assumes "- (2 ^ 63) \<le> d * 1000000" and "d * 1000000 < 2 ^ 63"
    and "- (2 ^ 63) \<le> now + d * 1000000" and "now + d * 1000000 < 2 ^ 63"
  shows "deadline now d = now + d * 1000000"
proof -
  from assms(1,2) have "int64 (d * 1000000) = d * 1000000"
    by (rule int64_exact)
  moreover from assms(3,4) have "int64 (now + d * 1000000) = now + d * 1000000"
    by (rule int64_exact)
  ultimately show ?thesis
    by (simp add: deadline_def)
qed

lemma notBefore_sendDelayedLocked:
  assumes "wellFormed s"
  shows "notBefore (nextMessage s) (deadline (clock s) d) (sendDelayedLocked c d s)"
proof -
  let ?m = "CallableMessage (nextMessage s) c"
  let ?k = "deadline (clock s) d"
  let ?s1 = "sendDelayedLocked c d s"
  from assms(1) have below: "\<forall>m \<in> set (allMessages s). ident m < nextMessage s"
    by (simp add: wellFormed_def)
  have dq: "delayedQueue ?s1 = emplace ?k ?m (delayedQueue s)"
    and next1: "nextMessage ?s1 = Suc (nextMessage s)"
    and same: "pending ?s1 = pending s" "executed ?s1 = executed s" "clock ?s1 = clock s"
    by (simp_all add: pending_same [of ?s1 s])
  have "k' = ?k" if "(k', m) \<in> set (delayedQueue ?s1)" and "ident m = nextMessage s" for k' m
  proof -
    from that(1) have "(k', m) = (?k, ?m) \<or> (k', m) \<in> set (delayedQueue s)"
      using set_emplace_upper [of ?k ?m "delayedQueue s"] by (auto simp: dq)
    moreover have "ident m < nextMessage s" if "(k', m) \<in> set (delayedQueue s)"
      using that below by (force simp: allMessages_def)
    ultimately show ?thesis
      using that(2) by auto
  qed
  moreover have "?k < clock ?s1" if "m \<in> set (pending ?s1)" and "ident m = nextMessage s" for m
  proof -
    from that(1) below have "ident m < nextMessage s"
      by (simp add: same allMessages_def)
    with that(2) show ?thesis by simp
  qed
  moreover have "?k < t" if "(st, m, t) \<in> set (executed ?s1)" and "ident m = nextMessage s" for st m t
  proof -
    from that(1) have "m \<in> set (called s)"
      by (force simp: same called_def)
    with below have "ident m < nextMessage s"
      by (simp add: allMessages_def)
    with that(2) show ?thesis by simp
  qed
  moreover from next1 have "nextMessage s < nextMessage ?s1"
    by simp
  ultimately show ?thesis
    unfolding notBefore_def by blast
qed

subsection \<open>The worker gets through the queue\<close>

lemma step_fromQueue_same: "e \<noteq> Worker \<Longrightarrow> fromQueue (step e s) = fromQueue s"
  by (cases e)
     (simp_all add: fromQueue_def send_def sendDelayed_def sendAsync_eq sendSync_def sendWait_def)




















subsection \<open>The way out of the loop\<close>




lemma step_worker_same:
  assumes "e \<noteq> Worker" and "\<And>t. e \<noteq> Start t"
  shows "worker (step e s) = worker s"
proof (cases e)
  case (Start t)
  with assms(2) show ?thesis by blast
qed (use assms(1) in \<open>simp_all add: sendWait_def\<close>)







subsection \<open>What the worker leaves behind\<close>


lemma step_exited:
  assumes "\<And>t. e \<noteq> Start t" and "worker s = Exited"
  shows "worker (step e s) = Exited \<and> set (delayedQueue s) \<subseteq> set (delayedQueue (step e s))"
proof (cases "e = Worker")
  case True
  with assms(2) show ?thesis
    by (simp add: workerStep_def)
next
  case False
  with assms show ?thesis
    by (simp add: step_worker_same step_delayedQueue_keeps)
qed



lemma length_callableMessages [simp]: "length (callableMessages n cs) = length cs"
  by (induction cs arbitrary: n) simp_all

lemma run_sendLocked_frame [simp]:
  "worker (run (map SendLocked cs) s) = worker s"
  "thread (run (map SendLocked cs) s) = thread s"
  "isRunning (run (map SendLocked cs) s) = isRunning s"
  "isAcceptingMessages (run (map SendLocked cs) s) = isAcceptingMessages s"
  "delayedQueue (run (map SendLocked cs) s) = delayedQueue s"
  "executed (run (map SendLocked cs) s) = executed s"
  "clock (run (map SendLocked cs) s) = clock s"
  "messageQueue (run (map SendLocked cs) s)
     = messageQueue s @ callableMessages (nextMessage s) cs"
  by (simp_all add: run_sendLocked)




lemma late_enqueue_stays:
  assumes "worker s = Exited" and "\<forall>t. Start t \<notin> set es"
  shows "fromQueue (run es (sendLocked c s)) = fromQueue s
       \<and> CallableMessage (nextMessage s) c \<in> set (messageQueue (sendLocked c s))"
proof -
  have "worker s' = Exited \<Longrightarrow> \<forall>t. Start t \<notin> set es \<Longrightarrow> fromQueue (run es s') = fromQueue s'"
    for s'
  proof (induction es arbitrary: s')
    case Nil
    then show ?case by simp
  next
    case (Cons e es)
    from Cons.prems have exited: "worker (step e s') = Exited"
      using step_exited [of e s'] by auto
    have "fromQueue (step e s') = fromQueue s'"
    proof (cases "e = Worker")
      case True
      with Cons.prems(1) show ?thesis
        by (simp add: workerStep_def)
    next
      case False
      then show ?thesis
        by (rule step_fromQueue_same)
    qed
    moreover from exited Cons.prems(2) have "fromQueue (run es (step e s')) = fromQueue (step e s')"
      by (intro Cons.IH) auto
    ultimately show ?case
      by simp
  qed
  from this [of "sendLocked c s"] assms show ?thesis
    by (simp add: fromQueue_same [of "sendLocked c s" s])
qed

subsection \<open>Promises\<close>






























section \<open>Admission\<close>

text \<open>
  C10. A send, sendDelayed or sendAsync invoked while \<open>isAcceptingMessages\<close> is false
  throws the NotAccepting error and leaves the whole state, both queues and the flags
  included, exactly as it was.
\<close>

theorem admission_failure_atomic:
  assumes "\<not> isAcceptingMessages s"
  shows "send c s = (Inl NotAccepting, s)
       \<and> sendDelayed c d s = (Inl NotAccepting, s)
       \<and> sendAsync caller c s = (Inl NotAccepting, s)"
  using assms by (simp add: send_def sendDelayed_def sendAsync_def)

theorem admission_failure_atomic_witness:
  "\<not> isAcceptingMessages (run [Start 1, Stop] (init 0))
   \<and> send (Callable 1 Void) (run [Start 1, Stop] (init 0))
       = (Inl NotAccepting, run [Start 1, Stop] (init 0))
   \<and> sendDelayed (Callable 1 Void) 5 (run [Start 1, Stop] (init 0))
       = (Inl NotAccepting, run [Start 1, Stop] (init 0))
   \<and> sendAsync 2 (Callable 1 Void) (run [Start 1, Stop] (init 0))
       = (Inl NotAccepting, run [Start 1, Stop] (init 0))"
proof -
  have closed: "\<not> isAcceptingMessages (run [Start 1, Stop] (init 0))"
    by (simp add: start_def stop_def init_def)
  from admission_failure_atomic [OF closed, of "Callable 1 Void" 5 2] closed
  show ?thesis by simp
qed

section \<open>The same-thread short-circuit\<close>

text \<open>
  C9. Let \<open>sendAsync\<close> be called on the worker's own thread (the caller's identity is
  the one \<open>getId\<close> yields, as for a call made from inside a message the worker is
  executing) while the unit accepts messages. Then the call returns a handle, and the
  action has been invoked in place, before the return: the invocation is in the log at the
  call's own clock reading, marked as made in place, the handle is already fulfilled with
  the action's result, and neither queue has been touched.
\<close>

theorem sendAsync_same_thread_in_place:
  assumes "getIsSameThread caller s" and "isAcceptingMessages s"
  shows "sendAsync caller c s =
           (Inr (nextPromise s),
            s\<lparr>nextMessage := Suc (nextMessage s), nextPromise := Suc (nextPromise s),
              executed := executed s @
                [(InPlace, CallableMessageWithPromise (nextMessage s) c (nextPromise s), clock s)],
              promises := (nextPromise s, result c) # promises s\<rparr>)
       \<and> future_get (nextPromise s) (snd (sendAsync caller c s)) = Some (result c)
       \<and> messageQueue (snd (sendAsync caller c s)) = messageQueue s
       \<and> delayedQueue (snd (sendAsync caller c s)) = delayedQueue s"
  using assms by (simp add: sendAsync_def sendAsyncCall_def Let_def future_get_def)

theorem sendAsync_same_thread_in_place_witness:
  "worker (run [Start 1, Send (Callable 1 Void), Worker, Worker] (init 0))
     = Calling (CallableMessage 0 (Callable 1 Void))
   \<and> getIsSameThread 1 (run [Start 1, Send (Callable 1 Void), Worker, Worker] (init 0))
   \<and> isAcceptingMessages (run [Start 1, Send (Callable 1 Void), Worker, Worker] (init 0))
   \<and> sendAsync 1 (Callable 7 (Value 42))
         (run [Start 1, Send (Callable 1 Void), Worker, Worker] (init 0))
       = (Inr 0, (run [Start 1, Send (Callable 1 Void), Worker, Worker] (init 0))
            \<lparr>executed := [(InPlace, CallableMessageWithPromise 1 (Callable 7 (Value 42)) 0, 0)],
              promises := [(0, Value 42)], nextMessage := 2, nextPromise := 1\<rparr>)
   \<and> future_get 0 (snd (sendAsync 1 (Callable 7 (Value 42))
         (run [Start 1, Send (Callable 1 Void), Worker, Worker] (init 0))))
       = Some (Value 42)
   \<and> messageQueue (snd (sendAsync 1 (Callable 7 (Value 42))
         (run [Start 1, Send (Callable 1 Void), Worker, Worker] (init 0)))) = []"
proof -
  define s where "s = run [Start 1, Send (Callable 1 Void), Worker, Worker] (init 0)"
  have s: "s = (init 0)\<lparr>isRunning := True, thread := Some (Joinable 1),
      worker := Calling (CallableMessage 0 (Callable 1 Void)), nextMessage := 1\<rparr>"
    unfolding s_def
    by (simp add: start_def send_def sendLocked_def workerStep_def promote_def takeNext_def
          init_def)
  have same: "getIsSameThread 1 s"
    unfolding s by (simp add: getIsSameThread_def getId_def init_def)
  have acc: "isAcceptingMessages s"
    unfolding s by (simp add: init_def)
  have inside: "worker s = Calling (CallableMessage 0 (Callable 1 Void))"
    unfolding s by simp
  have before: "nextMessage s = 1" "nextPromise s = 0" "executed s = []" "promises s = []"
    "clock s = 0" "messageQueue s = []"
    unfolding s by (simp_all add: init_def)
  from sendAsync_same_thread_in_place [OF same acc, of "Callable 7 (Value 42)"]
  show ?thesis
    unfolding s_def [symmetric] using same acc inside before by (simp add: future_get_def)
qed

section \<open>The worker's identity before start\<close>

text \<open>
  C2, as amended. Before \<open>start\<close> has been called the unit holds no \<open>std::thread\<close>,
  and \<open>getId\<close> yields the identity of whichever thread is calling, not that of the
  thread that constructed the unit. So the same-thread detection answers "same thread" to
  every caller, and a \<open>sendAsync\<close> admitted before \<open>start\<close> is executed in place on
  the caller's thread and is not enqueued.
\<close>

theorem identity_before_start:
  assumes "\<forall>t. Start t \<notin> set es" and "s = run es (init t0)"
  shows "getId caller s = Some caller
       \<and> getIsSameThread caller s
       \<and> (isAcceptingMessages s \<longrightarrow>
            sendAsync caller c s =
              (Inr (nextPromise s),
               s\<lparr>nextMessage := Suc (nextMessage s), nextPromise := Suc (nextPromise s),
                 executed := executed s @
                   [(InPlace, CallableMessageWithPromise (nextMessage s) c (nextPromise s), clock s)],
                 promises := (nextPromise s, result c) # promises s\<rparr>))"
proof -
  have "thread (init t0) = None"
    by (simp add: init_def)
  with assms have none: "thread s = None"
    by (simp add: run_no_thread)
  then have same: "getIsSameThread caller s"
    by (simp add: getIsSameThread_def getId_def)
  with none show ?thesis
    by (simp add: getId_def sendAsync_def sendAsyncCall_def Let_def)
qed

theorem identity_before_start_witness:
  "(\<forall>t. Start t \<notin> set [Send (Callable 1 Void), Tick 3])
   \<and> getId 2 (run [Send (Callable 1 Void), Tick 3] (init 0)) = Some 2
   \<and> getIsSameThread 2 (run [Send (Callable 1 Void), Tick 3] (init 0))
   \<and> isAcceptingMessages (run [Send (Callable 1 Void), Tick 3] (init 0))
   \<and> snd (sendAsync 2 (Callable 7 (Value 42)) (run [Send (Callable 1 Void), Tick 3] (init 0)))
       = (run [Send (Callable 1 Void), Tick 3] (init 0))
           \<lparr>nextMessage := 2, nextPromise := 1,
             executed := [(InPlace, CallableMessageWithPromise 1 (Callable 7 (Value 42)) 0, 3)],
             promises := [(0, Value 42)]\<rparr>"
proof -
  have no: "\<forall>t. Start t \<notin> set [Send (Callable 1 Void), Tick 3]"
    by simp
  have acc: "isAcceptingMessages (run [Send (Callable 1 Void), Tick 3] (init 0))"
    by (simp add: init_def)
  from identity_before_start [OF no refl, of 2 0 "Callable 7 (Value 42)"] no acc
  show ?thesis
    by (simp add: send_def sendLocked_def init_def)
qed

text \<open>
  The claim as stated fails on the fresh unit: the callers 1 and 2 are on different
  threads, so at least one of them is not the constructing thread, yet each of them is
  its own "worker identity", and the \<open>sendAsync\<close> of caller 2 runs the action in place
  and leaves the queue empty.
\<close>

theorem foreign_caller_before_start_counterexample:
  "getId 1 (init 0) = Some 1
   \<and> getId 2 (init 0) = Some 2
   \<and> getIsSameThread 2 (init 0)
   \<and> sendAsync 2 (Callable 7 (Value 42)) (init 0)
       = (Inr 0, (init 0)\<lparr>nextMessage := 1, nextPromise := 1,
            executed := [(InPlace, CallableMessageWithPromise 0 (Callable 7 (Value 42)) 0, 0)],
            promises := [(0, Value 42)]\<rparr>)
   \<and> messageQueue (snd (sendAsync 2 (Callable 7 (Value 42)) (init 0))) = []"
  by (simp add: getId_def getIsSameThread_def sendAsync_def sendAsyncCall_def Let_def init_def)

section \<open>Admission closure\<close>

text \<open>
  C3, as amended. After \<open>stop\<close> has returned, whatever happens next, \<open>send\<close>,
  \<open>sendDelayed\<close> and \<open>sendAsync\<close> fail with NotAccepting and change nothing;
  \<open>sendSync\<close> and \<open>sendWait\<close> fail too, but with NotStarted (their test of
  \<open>isRunning\<close> comes first; NotAccepting only if the unit was started again in
  between). And on a unit on which neither \<open>stop\<close> nor the destructor has been called,
  none of the five fails with NotAccepting.
\<close>

theorem admission_closure:
  assumes "stop s0 = (Inr (), s1)" and "s = run es s1"
    and "Stop \<notin> set es'" and "Destroy \<notin> set es'" and "s' = run es' (init t0)"
  shows "send c s = (Inl NotAccepting, s)
       \<and> sendDelayed c d s = (Inl NotAccepting, s)
       \<and> sendAsync caller c s = (Inl NotAccepting, s)
       \<and> sendSync caller c s = (Inl (if isRunning s then NotAccepting else NotStarted), s)
       \<and> sendWait caller c s = (Inl (if isRunning s then NotAccepting else NotStarted), s)
       \<and> ((\<forall>t. Start t \<notin> set es) \<longrightarrow> \<not> isRunning s)
       \<and> fst (send c s') \<noteq> Inl NotAccepting
       \<and> fst (sendDelayed c d s') \<noteq> Inl NotAccepting
       \<and> fst (sendAsync caller c s') \<noteq> Inl NotAccepting
       \<and> fst (sendSync caller c s') \<noteq> Inl NotAccepting
       \<and> fst (sendWait caller c s') \<noteq> Inl NotAccepting"
proof -
  from assms(1) have s1: "\<not> isAcceptingMessages s1" "\<not> isRunning s1"
    by (auto simp: stop_def split: option.splits)
  with assms(2) have closed: "\<not> isAcceptingMessages s"
    by (simp add: run_not_accepting)
  have stopped: "\<not> isRunning s" if "\<forall>t. Start t \<notin> set es"
    using that s1(2) assms(2) by (simp add: run_not_running)
  have "isAcceptingMessages (init t0)"
    by (simp add: init_def)
  with assms(3-5) have "isAcceptingMessages s'"
    by (simp add: run_accepting)
  then have "fst (send c s') \<noteq> Inl NotAccepting"
    and "fst (sendDelayed c d s') \<noteq> Inl NotAccepting"
    and "fst (sendAsync caller c s') \<noteq> Inl NotAccepting"
    and "fst (sendSync caller c s') \<noteq> Inl NotAccepting"
    and "fst (sendWait caller c s') \<noteq> Inl NotAccepting"
    by (simp_all add: send_def sendDelayed_def sendAsync_eq sendSync_def sendWait_def)
  moreover from closed have "send c s = (Inl NotAccepting, s)"
    and "sendDelayed c d s = (Inl NotAccepting, s)"
    and "sendAsync caller c s = (Inl NotAccepting, s)"
    and "sendSync caller c s = (Inl (if isRunning s then NotAccepting else NotStarted), s)"
    and "sendWait caller c s = (Inl (if isRunning s then NotAccepting else NotStarted), s)"
    by (simp_all add: send_def sendDelayed_def sendAsync_eq sendSync_def sendWait_def)
  ultimately show ?thesis
    using stopped by blast
qed

theorem admission_closure_witness:
  "stop (run [Start 1] (init 0)) = (Inr (), run [Start 1, Stop] (init 0))
   \<and> send (Callable 1 Void) (run [Worker, Tick 2] (run [Start 1, Stop] (init 0)))
       = (Inl NotAccepting, run [Worker, Tick 2] (run [Start 1, Stop] (init 0)))
   \<and> sendSync 2 (Callable 1 Void) (run [Worker, Tick 2] (run [Start 1, Stop] (init 0)))
       = (Inl NotStarted, run [Worker, Tick 2] (run [Start 1, Stop] (init 0)))
   \<and> (\<forall>t. Start t \<notin> set [Worker, Tick 2])
   \<and> Stop \<notin> set [Start 1, Send (Callable 1 Void)]
   \<and> Destroy \<notin> set [Start 1, Send (Callable 1 Void)]
   \<and> fst (send (Callable 1 Void) (run [Start 1, Send (Callable 1 Void)] (init 0))) = Inr ()
   \<and> fst (sendSync 2 (Callable 1 Void) (run [Start 1, Send (Callable 1 Void)] (init 0))) = Inr 0"
proof -
  have a: "stop (run [Start 1] (init 0)) = (Inr (), run [Start 1, Stop] (init 0))"
    by (simp add: start_def stop_def init_def)
  have b: "Stop \<notin> set [Start 1, Send (Callable 1 Void)]"
    and c: "Destroy \<notin> set [Start 1, Send (Callable 1 Void)]"
    and n: "\<forall>t. Start t \<notin> set [Worker, Tick 2]"
    by simp_all
  have r: "\<not> isRunning (run [Worker, Tick 2] (run [Start 1, Stop] (init 0)))"
    by (simp add: start_def stop_def init_def)
  have e: "fst (send (Callable 1 Void) (run [Start 1, Send (Callable 1 Void)] (init 0))) = Inr ()"
    "fst (sendSync 2 (Callable 1 Void) (run [Start 1, Send (Callable 1 Void)] (init 0))) = Inr 0"
    by (simp_all add: start_def send_def sendSync_def sendAsync_eq init_def)
  from admission_closure [OF a refl b c refl, of "Callable 1 Void" "[Worker, Tick 2]" 5 2 0]
    a b c n r e
  show ?thesis
    by simp
qed

text \<open>
  The claim as stated fails right after \<open>stop\<close>: \<open>sendSync\<close> and \<open>sendWait\<close> report
  NotStarted, not NotAccepting.
\<close>

theorem sendSync_after_stop_counterexample:
  "stop (run [Start 1] (init 0)) = (Inr (), run [Start 1, Stop] (init 0))
   \<and> sendSync 2 (Callable 7 (Value 42)) (run [Start 1, Stop] (init 0))
       = (Inl NotStarted, run [Start 1, Stop] (init 0))
   \<and> sendWait 2 (Callable 7 Void) (run [Start 1, Stop] (init 0))
       = (Inl NotStarted, run [Start 1, Stop] (init 0))"
  by (simp add: start_def stop_def sendSync_def sendWait_def init_def)

section \<open>Double start\<close>

text \<open>
  C4, as amended. Once \<open>start\<close> has succeeded, and as long as neither \<open>stop\<close> nor the
  destructor has been called since, another call of \<open>start\<close> fails with AlreadyStarted
  and leaves the state as it was: no second thread is spawned, the \<open>std::thread\<close> held
  is the first one.
\<close>

theorem double_start_rejected:
  assumes "start t0 s0 = (Inr (), s1)"
    and "Stop \<notin> set es" and "Destroy \<notin> set es"
    and "s = run es s1"
  shows "start t s = (Inl AlreadyStarted, s)"
proof -
  from assms(1) have "isRunning s1"
    by (auto simp: start_def split: if_splits option.splits std_thread.splits)
  with assms have "isRunning s"
    by (simp add: run_running)
  then show ?thesis
    by (simp add: start_def)
qed

theorem double_start_rejected_witness:
  "start 1 (init 0) = (Inr (), run [Start 1] (init 0))
   \<and> Stop \<notin> set [Send (Callable 1 Void), Worker]
   \<and> Destroy \<notin> set [Send (Callable 1 Void), Worker]
   \<and> start 2 (run [Send (Callable 1 Void), Worker] (run [Start 1] (init 0)))
       = (Inl AlreadyStarted, run [Send (Callable 1 Void), Worker] (run [Start 1] (init 0)))
   \<and> thread (run [Send (Callable 1 Void), Worker] (run [Start 1] (init 0))) = Some (Joinable 1)"
proof -
  have a: "start 1 (init 0) = (Inr (), run [Start 1] (init 0))"
    by (simp add: start_def init_def)
  have b: "Stop \<notin> set [Send (Callable 1 Void), Worker]"
    and c: "Destroy \<notin> set [Send (Callable 1 Void), Worker]"
    by simp_all
  have d: "thread (run [Send (Callable 1 Void), Worker] (run [Start 1] (init 0))) = Some (Joinable 1)"
    by (simp add: start_def init_def)
  from double_start_rejected [OF a b c refl, of 2] a b c d show ?thesis
    by simp
qed

text \<open>
  The claim as stated fails after \<open>stop\<close>: the test of \<open>start\<close> is \<open>isRunning\<close>, which
  \<open>stop\<close> has cleared. On a unit that was started, stopped and joined, the second
  \<open>start\<close> succeeds and spawns a second thread.
\<close>

theorem restart_after_stop_counterexample:
  "start 2 (run [Start 1, Stop, Worker, Join] (init 0))
     = (Inr (), (run [Start 1, Stop, Worker, Join] (init 0))
          \<lparr>isRunning := True, thread := Some (Joinable 2), worker := LoopTest\<rparr>)
   \<and> thread (run [Start 1, Stop, Worker, Join] (init 0)) = Some Joined
   \<and> worker (run [Start 1, Stop, Worker, Join] (init 0)) = Exited"
  by (simp add: start_def stop_def workerStep_def runLeftovers_def joinStep_def join_def init_def)

section \<open>Delayed messages with equal deadlines\<close>

text \<open>
  C1. Two delayed messages with equal deadlines should both be executed, in submission
  order. The delayed queue is a \<open>std::map\<close>, whose \<open>emplace\<close> does nothing when the key
  is present: a message sent at time 0 with a delay of 10 ms and one sent 5 ms later with
  a delay of 5 ms have the same deadline (10 ms, that is 10000000 ns, after time 0), the
  second \<open>sendDelayed\<close> returns normally, the map holds the first message only, and the
  run to the worker's exit executes the first message alone.
\<close>

theorem equal_deadline_dropped:
  "delayedQueue (run [Start 1, SendDelayed (Callable 1 Void) 10, Tick 5000000,
                      SendDelayed (Callable 2 Void) 5] (init 0))
     = [(10000000, CallableMessage 0 (Callable 1 Void))]
   \<and> messageQueue (run [Start 1, SendDelayed (Callable 1 Void) 10, Tick 5000000,
                      SendDelayed (Callable 2 Void) 5] (init 0)) = []
   \<and> run [Start 1, SendDelayed (Callable 1 Void) 10, Tick 5000000,
           SendDelayed (Callable 2 Void) 5,
           Tick 15000000, Worker, Worker, Worker, Stop, Worker] (init 0)
     = (init 20000000)\<lparr>isRunning := False, isAcceptingMessages := False,
          thread := Some (Joinable 1), worker := Exited,
          executed := [(InLoop, CallableMessage 0 (Callable 1 Void), 20000000)],
          nextMessage := 2\<rparr>"
  by (simp add: start_def stop_def sendDelayed_def sendDelayedLocked_def deadline_def int64_def
        workerStep_def promote_def takeNext_def runLeftovers_def init_def)

section \<open>First in, first out\<close>



section \<open>Delayed messages\<close>

text \<open>
  C6, as amended. Let a unit be in any state it can reach, and let the locked part of
  \<open>sendDelayed(c, d)\<close> run there, at the clock reading \<open>clock s\<close> (for an admitted
  \<open>sendDelayed\<close> without interference this is the whole call). First: if the deadline is
  computed without overflow, that is, \<open>d\<close> milliseconds as nanoseconds and the sum
  \<open>clock s + d\<close> both fit the signed 64-bit count of the clock, then in every schedule
  that follows every invocation of the message object it made happens at a time after
  \<open>clock s + d\<close>: the action is never executed before its deadline. Second: of two
  messages that wait in the delayed queue together, the one with the earlier deadline is
  executed first: whenever the worker has called the later one, it has called the earlier
  one before it.
\<close>

theorem delayed_not_before_deadline:
  assumes "s = run es0 (init t0)"
  shows "(isAcceptingMessages s \<longrightarrow> sendDelayed c d s = (Inr (), sendDelayedLocked c d s))
       \<and> (- (2 ^ 63) \<le> d * 1000000 \<and> d * 1000000 < 2 ^ 63
          \<and> - (2 ^ 63) \<le> clock s + d * 1000000 \<and> clock s + d * 1000000 < 2 ^ 63 \<longrightarrow>
           (\<forall>st t. (st, CallableMessage (nextMessage s) c, t)
                      \<in> set (executed (run es (sendDelayedLocked c d s)))
                    \<longrightarrow> clock s + d * 1000000 < t))
       \<and> ((ka, ma) \<in> set (delayedQueue s) \<and> (kb, mb) \<in> set (delayedQueue s) \<and> ka < kb
            \<and> mb \<in> set (fromQueue (run es' s))
          \<longrightarrow> (\<exists>xs ys zs. fromQueue (run es' s) = xs @ ma # ys @ mb # zs))"
proof -
  from assms have tied: "tied s" and wf: "wellFormed s"
    by (simp_all add: tied_reachable wellFormed_reachable)
  have whole: "sendDelayed c d s = (Inr (), sendDelayedLocked c d s)" if "isAcceptingMessages s"
    using that by (simp add: sendDelayed_def)
  have floor: "clock s + d * 1000000 < t"
    if "- (2 ^ 63) \<le> d * 1000000" and "d * 1000000 < 2 ^ 63"
      and "- (2 ^ 63) \<le> clock s + d * 1000000" and "clock s + d * 1000000 < 2 ^ 63"
      and "(st, CallableMessage (nextMessage s) c, t)
             \<in> set (executed (run es (sendDelayedLocked c d s)))"
    for st t
  proof -
    let ?s1 = "step (SendDelayedLocked c d) s"
    from that(1-4) have key: "deadline (clock s) d = clock s + d * 1000000"
      by (rule deadline_exact)
    from tied wf have "tied ?s1" and "wellFormed ?s1"
      by (simp_all only: tied_step wellFormed_step)
    moreover from wf have "notBefore (nextMessage s) (clock s + d * 1000000) ?s1"
      using notBefore_sendDelayedLocked [of s d c] by (simp add: key)
    ultimately have "notBefore (nextMessage s) (clock s + d * 1000000) (run es ?s1)"
      by (rule notBefore_run)
    with that(5) show ?thesis
      by (auto simp: notBefore_def)
  qed
  have order: "\<exists>xs ys zs. fromQueue (run es' s) = xs @ ma # ys @ mb # zs"
    if "(ka, ma) \<in> set (delayedQueue s)" and "(kb, mb) \<in> set (delayedQueue s)" and "ka < kb"
      and "mb \<in> set (fromQueue (run es' s))"
  proof -
    from wf that(2) have "mb \<notin> set (queueOrder s)"
      using wellFormed_delayed_apart by fastforce
    with that(1,2) have "earlierFirst (ka, ma) (kb, mb) s"
      by (simp add: earlierFirst_def)
    with tied wf that(3) have "earlierFirst (ka, ma) (kb, mb) (run es' s)"
      by (intro earlierFirst_run) simp_all
    moreover from that(4) have "mb \<in> set (queueOrder (run es' s))"
      by (simp add: queueOrder_def)
    ultimately obtain xs ys zs where "queueOrder (run es' s) = xs @ ma # ys @ mb # zs"
      by (auto simp: earlierFirst_def)
    then have "fromQueue (run es' s) @ pending (run es' s) = xs @ ma # ys @ mb # zs"
      by (simp add: queueOrder_def)
    moreover from tied wf have "distinct (queueOrder (run es' s))"
      by (intro wellFormed_queueOrder_distinct wellFormed_run)
    then have "distinct (fromQueue (run es' s) @ pending (run es' s))"
      by (simp add: queueOrder_def)
    ultimately have "\<exists>zs'. fromQueue (run es' s) = xs @ ma # ys @ mb # zs'"
      using that(4) prefix_holds_both [of "fromQueue (run es' s)" "pending (run es' s)" xs ma ys mb zs]
      by blast
    then show ?thesis by blast
  qed
  from whole floor order show ?thesis
    by blast
qed

theorem delayed_not_before_deadline_witness:
  "isAcceptingMessages
     (run [Start 1, SendDelayed (Callable 1 Void) 10, SendDelayed (Callable 2 Void) 20] (init 0))
   \<and> - (2 ^ 63) \<le> (5 :: int) * 1000000 \<and> (5 :: int) * 1000000 < 2 ^ 63
   \<and> (InLoop, CallableMessage 2 (Callable 3 Void), 30000000)
       \<in> set (executed (run [Tick 30000000, Worker, Worker, Worker]
            (snd (sendDelayed (Callable 3 Void) 5
               (run [Start 1, SendDelayed (Callable 1 Void) 10, SendDelayed (Callable 2 Void) 20]
                  (init 0))))))
   \<and> clock (run [Start 1, SendDelayed (Callable 1 Void) 10, SendDelayed (Callable 2 Void) 20]
          (init 0)) + 5 * 1000000 < 30000000
   \<and> delayedQueue
         (run [Start 1, SendDelayed (Callable 1 Void) 10, SendDelayed (Callable 2 Void) 20] (init 0))
       = [(10000000, CallableMessage 0 (Callable 1 Void)),
          (20000000, CallableMessage 1 (Callable 2 Void))]
   \<and> CallableMessage 1 (Callable 2 Void)
       \<in> set (fromQueue (run [Tick 30000000, Worker, Worker, Worker, Worker, Worker, Worker]
            (run [Start 1, SendDelayed (Callable 1 Void) 10, SendDelayed (Callable 2 Void) 20]
               (init 0))))
   \<and> (\<exists>xs ys zs.
         fromQueue (run [Tick 30000000, Worker, Worker, Worker, Worker, Worker, Worker]
            (run [Start 1, SendDelayed (Callable 1 Void) 10, SendDelayed (Callable 2 Void) 20]
               (init 0)))
         = xs @ CallableMessage 0 (Callable 1 Void) # ys @ CallableMessage 1 (Callable 2 Void) # zs)"
proof -
  define s where
    "s = run [Start 1, SendDelayed (Callable 1 Void) 10, SendDelayed (Callable 2 Void) 20] (init 0)"
  let ?ma = "CallableMessage 0 (Callable 1 Void)"
  let ?mb = "CallableMessage 1 (Callable 2 Void)"
  let ?es = "[Tick 30000000, Worker, Worker, Worker]"
  let ?es' = "[Tick 30000000, Worker, Worker, Worker, Worker, Worker, Worker]"
  have s: "s = (init 0)\<lparr>isRunning := True, thread := Some (Joinable 1), worker := LoopTest,
      delayedQueue := [(10000000, ?ma), (20000000, ?mb)], nextMessage := 2\<rparr>"
    unfolding s_def
    by (simp add: start_def sendDelayed_def sendDelayedLocked_def deadline_def int64_def init_def)
  have acc: "isAcceptingMessages s" and now: "clock s = 0" and fresh: "nextMessage s = 2"
    and dq: "delayedQueue s = [(10000000, ?ma), (20000000, ?mb)]"
    unfolding s by (simp_all add: init_def)
  have range: "- (2 ^ 63) \<le> (5 :: int) * 1000000" "(5 :: int) * 1000000 < 2 ^ 63"
    "- (2 ^ 63) \<le> clock s + 5 * 1000000" "clock s + 5 * 1000000 < 2 ^ 63"
    unfolding now by simp_all
  have ran: "(InLoop, CallableMessage (nextMessage s) (Callable 3 Void), 30000000)
       \<in> set (executed (run ?es (sendDelayedLocked (Callable 3 Void) 5 s)))"
    unfolding s
    by (simp add: sendDelayedLocked_def deadline_def int64_def workerStep_def promote_def
          takeNext_def init_def)
  have called: "?mb \<in> set (fromQueue (run ?es' s))"
    unfolding s
    by (simp add: workerStep_def promote_def takeNext_def fromQueue_def init_def)
  note inst = delayed_not_before_deadline [of s "[Start 1, SendDelayed (Callable 1 Void) 10,
      SendDelayed (Callable 2 Void) 20]" 0 "Callable 3 Void" 5 ?es 10000000 ?ma 20000000 ?mb ?es',
      unfolded s_def [symmetric], OF refl]
  from inst acc have whole: "sendDelayed (Callable 3 Void) 5 s
      = (Inr (), sendDelayedLocked (Callable 3 Void) 5 s)"
    by blast
  from inst range ran have floor: "clock s + 5 * 1000000 < 30000000"
    by blast
  from dq have "(10000000, ?ma) \<in> set (delayedQueue s)" and "(20000000, ?mb) \<in> set (delayedQueue s)"
    by simp_all
  with inst called
  have first: "\<exists>xs ys zs. fromQueue (run ?es' s) = xs @ ?ma # ys @ ?mb # zs"
    by simp
  from ran have "(InLoop, CallableMessage 2 (Callable 3 Void), 30000000)
       \<in> set (executed (run ?es (snd (sendDelayed (Callable 3 Void) 5 s))))"
    by (simp only: whole snd_conv fresh)
  with acc range(1,2) floor dq called first show ?thesis
    unfolding s_def [symmetric] by blast
qed

text \<open>
  The claim as stated fails when the deadline overflows. The timeout is a count of
  milliseconds, the clock counts nanoseconds in a signed 64-bit integer, and line 110 adds
  the two: for the largest timeout, \<open>2^63 - 1\<close> ms, the product wraps around to -1 ms, so
  the message sent at time 0 gets the key -1000000, lies before the worker's very next
  clock reading, and is executed at time 0, not after it.
\<close>

theorem delayed_overflow_counterexample:
  "isAcceptingMessages (run [Start 1] (init 0))
   \<and> clock (run [Start 1] (init 0)) = 0
   \<and> delayedQueue (run [Start 1, SendDelayed (Callable 1 Void) (2 ^ 63 - 1)] (init 0))
       = [(- 1000000, CallableMessage 0 (Callable 1 Void))]
   \<and> executed (run [Start 1, SendDelayed (Callable 1 Void) (2 ^ 63 - 1), Worker, Worker, Worker]
        (init 0))
       = [(InLoop, CallableMessage 0 (Callable 1 Void), 0)]
   \<and> \<not> (0 + (2 ^ 63 - 1) * 1000000 < (0 :: int))"
  by (simp add: start_def sendDelayed_def sendDelayedLocked_def deadline_def int64_def
        workerStep_def promote_def takeNext_def init_def)

section \<open>The drain on stop\<close>



section \<open>The synchronous round trip\<close>




end
